theory Spec2Isabelle
  imports Complex_Main "HOL-Library.AList"
begin

section \<open>Strings\<close>

text \<open>
  The program is TypeScript; its strings are sequences of UTF-16 code units. Here a string
  is a \<^typ>\<open>char list\<close> and a \<^typ>\<open>char\<close> stands for one code unit of the Latin-1 range.
  All patterns and all query terms of the program are ASCII, so case conversion is written
  out for the ASCII letters; every other character is its own lower case, which gives the
  same substring matches against ASCII terms as the program's \<^verbatim>\<open>toLowerCase\<close>.
\<close>

definition lower_chars :: string where
  "lower_chars = ''abcdefghijklmnopqrstuvwxyz''"

definition upper_chars :: string where
  "upper_chars = ''ABCDEFGHIJKLMNOPQRSTUVWXYZ''"

definition digit_chars :: string where
  "digit_chars = ''0123456789''"

definition is_lower :: "char \<Rightarrow> bool" where
  "is_lower c = (c \<in> set lower_chars)"

definition is_upper :: "char \<Rightarrow> bool" where
  "is_upper c = (c \<in> set upper_chars)"

definition is_alnum :: "char \<Rightarrow> bool" where
  "is_alnum c = (c \<in> set lower_chars \<or> c \<in> set upper_chars \<or> c \<in> set digit_chars)"

text \<open>The class \<^verbatim>\<open>\s\<close> of the regular expressions, which is also what \<^verbatim>\<open>trim\<close> removes:
  tab, line feed, vertical tab, form feed, carriage return, space, no-break space.\<close>

definition is_space :: "char \<Rightarrow> bool" where
  "is_space c = (c \<in> set [CHR 0x09, CHR 0x0A, CHR 0x0B, CHR 0x0C, CHR 0x0D, CHR 0x20, CHR 0xA0])"

definition toLowerCase_char :: "char \<Rightarrow> char" where
  "toLowerCase_char c = (case map_of (zip upper_chars lower_chars) c of Some l \<Rightarrow> l | None \<Rightarrow> c)"

definition toLowerCase :: "string \<Rightarrow> string" where
  "toLowerCase s = map toLowerCase_char s"

definition trim :: "string \<Rightarrow> string" where
  "trim s = rev (dropWhile is_space (rev (dropWhile is_space s)))"

text \<open>\<^verbatim>\<open>s.split(c)\<close> for a one-character separator: never empty, \<^verbatim>\<open>"".split(c)\<close> is \<^verbatim>\<open>[""]\<close>.\<close>

fun split_on :: "char \<Rightarrow> string \<Rightarrow> string list" where
  "split_on c [] = [[]]"
| "split_on c (x # xs) =
     (if x = c then [] # split_on c xs
      else (let rest = split_on c xs in (x # hd rest) # tl rest))"

text \<open>\<^verbatim>\<open>parts.join(c)\<close>.\<close>

fun join_with :: "char \<Rightarrow> string list \<Rightarrow> string" where
  "join_with c [] = []"
| "join_with c [p] = p"
| "join_with c (p # q # ps) = p @ c # join_with c (q # ps)"

text \<open>\<^verbatim>\<open>s.includes(t)\<close>.\<close>

fun js_includes :: "string \<Rightarrow> string \<Rightarrow> bool" where
  "js_includes [] t = (t = [])"
| "js_includes (x # xs) t = (take (length t) (x # xs) = t \<or> js_includes xs t)"

text \<open>The decimal numeral of a natural number, as a template literal prints it.\<close>

fun decimal :: "nat \<Rightarrow> string" where
  "decimal n =
     (if n < 10 then [digit_chars ! n] else decimal (n div 10) @ [digit_chars ! (n mod 10)])"

declare decimal.simps [simp del]

definition newline :: char where
  "newline = CHR 0x0A"

section \<open>The chunker (document-processor)\<close>

datatype ChunkType = Markdown | Code | Text

record ChunkMetadata =
  title :: "string option"
  type :: ChunkType
  startLine :: "nat option"
  endLine :: "nat option"

record DocumentChunk =
  chunk_id :: string
  projectId :: string
  filePath :: string
  content :: string
  metadata :: ChunkMetadata

text \<open>The identifier \<^verbatim>\<open>`${projectId}:${filePath}:${startLine}`\<close>.\<close>

definition make_id :: "string \<Rightarrow> string \<Rightarrow> nat \<Rightarrow> string" where
  "make_id pid fp n = pid @ '':'' @ fp @ '':'' @ decimal n"

subsection \<open>Markdown\<close>

text \<open>\<^verbatim>\<open>line.match(/^#{1,3}\s/)\<close>: one to three \<^verbatim>\<open>#\<close> and then a white-space character.\<close>

definition is_heading :: "string \<Rightarrow> bool" where
  "is_heading line =
     list_ex (\<lambda>k. k < length line \<and> take k line = replicate k (CHR ''#'') \<and> is_space (line ! k))
       [1, 2, 3]"

text \<open>\<^verbatim>\<open>line.replace(/^#+\s/, '').trim()\<close>: the longest run of \<^verbatim>\<open>#\<close> is the only one that a
  white-space character can follow.\<close>

definition heading_title :: "string \<Rightarrow> string" where
  "heading_title line =
     (let h = length (takeWhile (\<lambda>c. c = CHR ''#'') line)
      in trim (if 1 \<le> h \<and> h < length line \<and> is_space (line ! h) then drop (Suc h) line else line))"

definition markdown_chunk ::
  "string \<Rightarrow> string \<Rightarrow> string list \<Rightarrow> string \<Rightarrow> nat \<Rightarrow> nat \<Rightarrow> DocumentChunk" where
  "markdown_chunk pid fp currentChunkLines currentTitle start end =
     \<lparr> chunk_id = make_id pid fp start, projectId = pid, filePath = fp,
       content = join_with newline currentChunkLines,
       metadata = \<lparr> title = Some currentTitle, type = Markdown,
                    startLine = Some start, endLine = Some end \<rparr> \<rparr>"

text \<open>The loop of \<^verbatim>\<open>chunkMarkdown\<close> over the lines from index \<open>i\<close> on. Its state is the
  chunks pushed so far, \<^verbatim>\<open>currentChunkLines\<close>, \<^verbatim>\<open>currentTitle\<close> and \<^verbatim>\<open>startLine\<close>.\<close>

fun chunkMarkdown_loop ::
  "string \<Rightarrow> string \<Rightarrow> string list \<Rightarrow> nat \<Rightarrow>
   DocumentChunk list \<times> string list \<times> string \<times> nat \<Rightarrow>
   DocumentChunk list \<times> string list \<times> string \<times> nat" where
  "chunkMarkdown_loop pid fp [] i st = st"
| "chunkMarkdown_loop pid fp (line # rest) i (chunks, cur, ttl, start) =
     (if is_heading line then
        chunkMarkdown_loop pid fp rest (Suc i)
          (if cur \<noteq> [] then chunks @ [markdown_chunk pid fp cur ttl start i] else chunks,
           [line], heading_title line, Suc i)
      else chunkMarkdown_loop pid fp rest (Suc i) (chunks, cur @ [line], ttl, start))"

text \<open>After the loop the last chunk is added, unless no line is pending.\<close>

fun chunkMarkdown_last ::
  "string \<Rightarrow> string \<Rightarrow> nat \<Rightarrow> DocumentChunk list \<times> string list \<times> string \<times> nat \<Rightarrow>
   DocumentChunk list" where
  "chunkMarkdown_last pid fp n (chunks, cur, ttl, start) =
     (if cur \<noteq> [] then chunks @ [markdown_chunk pid fp cur ttl start n] else chunks)"

definition chunkMarkdown :: "string \<Rightarrow> string \<Rightarrow> string \<Rightarrow> DocumentChunk list" where
  "chunkMarkdown pid fp text =
     (let lines = split_on newline text
      in chunkMarkdown_last pid fp (length lines)
           (chunkMarkdown_loop pid fp lines 0 ([], [], ''Introduction'', 1)))"

subsection \<open>Code\<close>

definition CHUNK_SIZE :: nat where
  "CHUNK_SIZE = 50"

definition OVERLAP :: nat where
  "OVERLAP = 10"

text \<open>\<^verbatim>\<open>lines.slice(i, end)\<close> for \<open>0 \<le> i\<close> and \<open>0 \<le> end\<close>.\<close>

definition slice :: "'a list \<Rightarrow> nat \<Rightarrow> nat \<Rightarrow> 'a list" where
  "slice xs i j = take (j - i) (drop i xs)"

definition code_chunk :: "string \<Rightarrow> string \<Rightarrow> string list \<Rightarrow> nat \<Rightarrow> nat \<Rightarrow> DocumentChunk" where
  "code_chunk pid fp lines i end =
     \<lparr> chunk_id = make_id pid fp (i + 1), projectId = pid, filePath = fp,
       content = join_with newline (slice lines i end),
       metadata = \<lparr> title = None, type = Code,
                    startLine = Some (i + 1), endLine = Some end \<rparr> \<rparr>"

text \<open>The \<^verbatim>\<open>for\<close> loop of \<^verbatim>\<open>chunkCode\<close>, from index \<open>i\<close>, with its \<^verbatim>\<open>break\<close>.\<close>

function chunkCode_loop ::
  "string \<Rightarrow> string \<Rightarrow> string list \<Rightarrow> nat \<Rightarrow> DocumentChunk list \<Rightarrow> DocumentChunk list" where
  "chunkCode_loop pid fp lines i chunks =
     (if i < length lines then
        (let end = min (i + CHUNK_SIZE) (length lines);
             chunks' = chunks @ [code_chunk pid fp lines i end]
         in if end = length lines then chunks'
            else chunkCode_loop pid fp lines (i + (CHUNK_SIZE - OVERLAP)) chunks')
      else chunks)"
  by pat_completeness auto
termination
  by (relation "measure (\<lambda>(pid, fp, lines, i, chunks). length lines - i)")
     (auto simp: CHUNK_SIZE_def OVERLAP_def)

declare chunkCode_loop.simps [simp del]

definition chunkCode :: "string \<Rightarrow> string \<Rightarrow> string \<Rightarrow> DocumentChunk list" where
  "chunkCode pid fp text = chunkCode_loop pid fp (split_on newline text) 0 []"

subsection \<open>Plain text\<close>

definition chunkText :: "string \<Rightarrow> string \<Rightarrow> string \<Rightarrow> DocumentChunk list" where
  "chunkText pid fp text =
     [\<lparr> chunk_id = make_id pid fp 1, projectId = pid, filePath = fp,
        content = take 10000 text,
        metadata = \<lparr> title = None, type = Text,
                     startLine = Some 1, endLine = Some (length (split_on newline text)) \<rparr> \<rparr>]"

subsection \<open>Dispatch on the file extension\<close>

text \<open>\<^verbatim>\<open>filePath.split('.').pop()?.toLowerCase()\<close>; the split is never empty, so there is
  always a last part.\<close>

definition extension :: "string \<Rightarrow> string" where
  "extension fp = toLowerCase (last (split_on (CHR ''.'') fp))"

definition code_extensions :: "string list" where
  "code_extensions = [''ts'', ''js'', ''py'', ''java'', ''go'', ''rs'', ''c'', ''cpp'', ''h'']"

definition chunkDocument :: "string \<Rightarrow> string \<Rightarrow> string \<Rightarrow> DocumentChunk list" where
  "chunkDocument pid fp text =
     (if extension fp = ''md'' \<or> extension fp = ''markdown'' then chunkMarkdown pid fp text
      else if extension fp \<in> set code_extensions then chunkCode pid fp text
      else chunkText pid fp text)"

subsection \<open>Notions used to state the chunker's properties\<close>

text \<open>The 1-based numbers of the lines that are headings.\<close>

definition heading_line_numbers :: "string list \<Rightarrow> nat list" where
  "heading_line_numbers ls = map Suc (filter (\<lambda>i. is_heading (ls ! i)) [0..<length ls])"

text \<open>The same numbers, counted from line \<open>i\<close> on, by recursion on the lines.\<close>

fun headings_from :: "nat \<Rightarrow> string list \<Rightarrow> nat list" where
  "headings_from i [] = []"
| "headings_from i (l # ls) = (if is_heading l then [Suc i] else []) @ headings_from (Suc i) ls"

section \<open>The search engine: tokens and fuzzy matching\<close>

subsection \<open>Tokenization\<close>

text \<open>\<^verbatim>\<open>text.split(/[^a-zA-Z0-9]+/)\<close>: the pieces between the maximal runs of characters
  that are not alphanumeric. A run at the start or at the end of the text leaves an empty
  piece there, and the empty text gives one empty piece.\<close>

fun split_non_alnum :: "string \<Rightarrow> string list" where
  "split_non_alnum [] = [[]]"
| "split_non_alnum (c # cs) =
     (if is_alnum c then (let rest = split_non_alnum cs in (c # hd rest) # tl rest)
      else if cs \<noteq> [] \<and> \<not> is_alnum (hd cs) then split_non_alnum cs
      else [] # split_non_alnum cs)"

text \<open>\<^verbatim>\<open>token.replace(/([a-z])([A-Z])/g, '$1 $2')\<close>: the scan goes from left to right and
  resumes after the upper-case letter of a match.\<close>

fun camel_replace :: "string \<Rightarrow> string" where
  "camel_replace (a # b # cs) =
     (if is_lower a \<and> is_upper b then a # CHR '' '' # b # camel_replace cs
      else a # camel_replace (b # cs))"
| "camel_replace cs = cs"

definition stopWords :: "string list" where
  "stopWords =
     [''the'', ''is'', ''at'', ''of'', ''on'', ''and'', ''a'', ''an'', ''in'', ''to'', ''for'',
      ''with'', ''by'', ''about'', ''as'', ''this'', ''that'', ''these'', ''those'', ''are'',
      ''was'', ''were'', ''be'', ''been'', ''being'', ''have'', ''has'', ''had'', ''do'',
      ''does'', ''did'', ''but'', ''if'', ''or'', ''because'', ''as'', ''until'', ''while'',
      ''function'', ''class'', ''const'', ''var'', ''let'', ''return'', ''import'', ''export'',
      ''default'']"

definition isStopWord :: "string \<Rightarrow> bool" where
  "isStopWord word = (word \<in> set stopWords)"

text \<open>The inner loop of \<^verbatim>\<open>tokenize\<close> over the parts of one raw token.\<close>

fun tokenize_parts :: "string list \<Rightarrow> string list \<Rightarrow> string list" where
  "tokenize_parts [] tokens = tokens"
| "tokenize_parts (part # parts) tokens =
     (let lower = toLowerCase part
      in tokenize_parts parts
           (if length lower > 2 \<and> \<not> isStopWord lower then tokens @ [lower] else tokens))"

text \<open>The test under which the loop pushes a part.\<close>

definition keep_token :: "string \<Rightarrow> bool" where
  "keep_token w = (length w > 2 \<and> \<not> isStopWord w)"

text \<open>The outer loop over the raw tokens; an empty raw token is skipped.\<close>

fun tokenize_raw :: "string list \<Rightarrow> string list \<Rightarrow> string list" where
  "tokenize_raw [] tokens = tokens"
| "tokenize_raw (token # rawTokens) tokens =
     (if token = [] then tokenize_raw rawTokens tokens
      else tokenize_raw rawTokens
             (tokenize_parts (split_on (CHR '' '') (camel_replace token)) tokens))"

definition tokenize :: "string \<Rightarrow> string list" where
  "tokenize text = tokenize_raw (split_non_alnum text) []"

subsection \<open>Tokenization as the specification words it\<close>

text \<open>The raw fragments: the maximal non-empty runs of alphanumeric characters.\<close>

function fragments :: "string \<Rightarrow> string list" where
  "fragments s =
     (case dropWhile (\<lambda>c. \<not> is_alnum c) s of
        [] \<Rightarrow> []
      | c # cs \<Rightarrow> takeWhile is_alnum (c # cs) # fragments (dropWhile is_alnum (c # cs)))"
  by pat_completeness auto
termination
proof (relation "measure length", goal_cases)
  case 1
  show ?case by simp
next
  case (2 s c cs)
  have "length (dropWhile is_alnum cs) \<le> length cs"
    by (rule length_dropWhile_le)
  moreover have "length (c # cs) \<le> length s"
    using 2 length_dropWhile_le [of "\<lambda>c. \<not> is_alnum c" s] by simp
  moreover have "is_alnum c"
    using 2 hd_dropWhile [of "\<lambda>c. \<not> is_alnum c" s] by auto
  ultimately show ?case by simp
qed

declare fragments.simps [simp del]

text \<open>A boundary between a lower-case letter and the upper-case letter right after it.\<close>

fun sub_fragments :: "string \<Rightarrow> string list" where
  "sub_fragments [] = [[]]"
| "sub_fragments [a] = [[a]]"
| "sub_fragments (a # b # cs) =
     (if is_lower a \<and> is_upper b then [a] # sub_fragments (b # cs)
      else (let rest = sub_fragments (b # cs) in (a # hd rest) # tl rest))"

definition tokenize_spec :: "string \<Rightarrow> string list" where
  "tokenize_spec s =
     filter (\<lambda>w. \<not> (length w \<le> 2 \<or> w \<in> set stopWords))
       (map toLowerCase (concat (map sub_fragments (fragments s))))"

subsection \<open>Levenshtein distance\<close>

text \<open>An assignment \<^verbatim>\<open>xs[i] = v\<close> to an array: at \<open>i = length xs\<close> the array grows by one
  element. The program never assigns further out, where it would leave holes; the filler
  \<open>d\<close> stands for them.\<close>

definition js_assign :: "'a \<Rightarrow> 'a list \<Rightarrow> nat \<Rightarrow> 'a \<Rightarrow> 'a list" where
  "js_assign d xs i v =
     (if i < length xs then xs[i := v] else xs @ replicate (i - length xs) d @ [v])"

text \<open>One cell of the table, from the cells above and to the left of it.\<close>

definition cell :: "string \<Rightarrow> string \<Rightarrow> nat list list \<Rightarrow> nat \<Rightarrow> nat \<Rightarrow> nat" where
  "cell a b matrix i j =
     (if b ! (i - 1) = a ! (j - 1) then matrix ! (i - 1) ! (j - 1)
      else min (matrix ! (i - 1) ! (j - 1) + 1)
             (min (matrix ! i ! (j - 1) + 1) (matrix ! (i - 1) ! j + 1)))"

definition levenshteinDistance :: "string \<Rightarrow> string \<Rightarrow> nat" where
  "levenshteinDistance a b =
     (if length a = 0 then length b
      else if length b = 0 then length a
      else
        let matrix0 = fold (\<lambda>i matrix. js_assign [] matrix i [i]) [0..<Suc (length b)] [];
            matrix1 = fold (\<lambda>j matrix. matrix[0 := js_assign 0 (matrix ! 0) j j])
                        [0..<Suc (length a)] matrix0;
            matrix2 = fold (\<lambda>i matrix.
                          fold (\<lambda>j matrix. matrix[i := js_assign 0 (matrix ! i) j (cell a b matrix i j)])
                            [1..<Suc (length a)] matrix)
                        [1..<Suc (length b)] matrix1
        in matrix2 ! length b ! length a)"

text \<open>The test of the fuzzy branch of \<^verbatim>\<open>search\<close>: at most two edits.\<close>

definition fuzzy_match :: "string \<Rightarrow> string \<Rightarrow> bool" where
  "fuzzy_match term0 token = (levenshteinDistance term0 token \<le> 2)"

subsection \<open>Edit distance\<close>

text \<open>One edit: a character is inserted, deleted or replaced by another one, at the front
  or further inside the string.\<close>

inductive edit1 :: "string \<Rightarrow> string \<Rightarrow> bool" where
  ins: "edit1 xs (y # xs)"
| del: "edit1 (x # xs) xs"
| sub: "x \<noteq> y \<Longrightarrow> edit1 (x # xs) (y # xs)"
| inside: "edit1 xs ys \<Longrightarrow> edit1 (x # xs) (x # ys)"

text \<open>\<open>edits n a b\<close>: some \<open>n\<close> edits, one after the other, turn \<open>a\<close> into \<open>b\<close>.\<close>

inductive edits :: "nat \<Rightarrow> string \<Rightarrow> string \<Rightarrow> bool" where
  none: "edits 0 a a"
| more: "edits n a b \<Longrightarrow> edit1 b c \<Longrightarrow> edits (Suc n) a c"

text \<open>The recurrence of the table, read as a function of the two strings from their ends.\<close>

fun lev :: "string \<Rightarrow> string \<Rightarrow> nat" where
  "lev [] ys = length ys"
| "lev xs [] = length xs"
| "lev (x # xs) (y # ys) =
     (if x = y then lev xs ys
      else min (lev xs ys + 1) (min (lev xs (y # ys) + 1) (lev (x # xs) ys + 1)))"

text \<open>The value that the table holds in row \<open>i\<close> and column \<open>j\<close>, and the whole table once the
  rows up to \<open>i\<close> are filled; a row not yet filled is the one-element row of the first loop.\<close>

definition table_cell :: "string \<Rightarrow> string \<Rightarrow> nat \<Rightarrow> nat \<Rightarrow> nat" where
  "table_cell a b i j = lev (rev (take j a)) (rev (take i b))"

definition table_rows :: "string \<Rightarrow> string \<Rightarrow> nat \<Rightarrow> nat list list" where
  "table_rows a b i =
     map (\<lambda>k. if k \<le> i then map (table_cell a b k) [0..<Suc (length a)] else [k])
       [0..<Suc (length b)]"


section \<open>The search engine: index and persistence\<close>

datatype MatchType = Exact | Fuzzy | Semantic

text \<open>A match detail \<^verbatim>\<open>{ term, matchType }\<close>; the local variable \<^verbatim>\<open>matchType\<close> that is stored
  there can be \<^verbatim>\<open>null\<close>, which is \<open>None\<close>.\<close>

record MatchDetail =
  md_term :: string
  matchType :: "MatchType option"

record SearchResult =
  chunk :: DocumentChunk
  score :: real
  matchDetails :: "MatchDetail list"

text \<open>
  The index is a \<^verbatim>\<open>Map<string, DocumentChunk[]>\<close>. Its values are references to arrays, and
  \<^verbatim>\<open>search\<close> pushes onto an array that it has taken out of the map, so the arrays live in
  an explicit store: \<open>arrays\<close> maps a reference to the elements of its array, \<open>index\<close>
  lists the entries of the map in insertion order, \<open>next_ref\<close> is the next unused
  reference. The snapshot file and the lines written by \<^verbatim>\<open>console.error\<close> are part of the
  state as well. A value of this type is an engine whose index holds arrays of chunks, as
  the type \<^verbatim>\<open>Map<string, DocumentChunk[]>\<close> of the field says.
\<close>

type_synonym array_ref = nat

text \<open>
  The states of the snapshot file: there is none; it cannot be read, or its text cannot be
  parsed, or \<^verbatim>\<open>new Map\<close> does not accept the parsed value; it parses to entries that
  \<^verbatim>\<open>new Map\<close> accepts and that are not all a string with an array of chunks (the file has
  no schema and the program does not check the shape); it holds entries of strings and
  arrays of chunks, as \<^verbatim>\<open>saveIndex\<close> writes them.
\<close>

datatype snapshot_file =
  NoFile
| Unparsable
| Misshaped
| Snapshot "(string \<times> DocumentChunk list) list"

datatype log_event = Indexed nat string | SaveFailed | Loaded | LoadFailed

record SearchEngine =
  index :: "(string \<times> array_ref) list"
  arrays :: "array_ref \<Rightarrow> DocumentChunk list"
  next_ref :: array_ref
  snapshot :: snapshot_file
  console :: "log_event list"

text \<open>What a collection holds: \<^verbatim>\<open>index.get(pid)\<close>, read through the store.\<close>

definition collection :: "SearchEngine \<Rightarrow> string \<Rightarrow> DocumentChunk list option" where
  "collection eng pid = map_option (arrays eng) (map_of (index eng) pid)"

text \<open>\<^verbatim>\<open>Array.from(index.entries())\<close> with the arrays read out.\<close>

definition entries :: "SearchEngine \<Rightarrow> (string \<times> DocumentChunk list) list" where
  "entries eng = map (\<lambda>(pid, r). (pid, arrays eng r)) (index eng)"

text \<open>\<^verbatim>\<open>index.set(pid, chunks)\<close> for an array that nothing else refers to: the array gets
  a new reference; the entry keeps its place when the key is there already and goes to the
  end otherwise.\<close>

definition set_entry :: "SearchEngine \<Rightarrow> string \<Rightarrow> DocumentChunk list \<Rightarrow> SearchEngine" where
  "set_entry eng pid chunks =
     eng\<lparr> index := AList.update pid (next_ref eng) (index eng),
          arrays := (arrays eng)(next_ref eng := chunks),
          next_ref := Suc (next_ref eng) \<rparr>"

datatype io_error = ReadError | WriteError

text \<open>What \<^verbatim>\<open>new Map(JSON.parse(data))\<close> evaluates to when it does not throw: a map of
  strings to arrays of chunks, or a map of another shape.\<close>

datatype parsed_map =
  ChunkArrays "(string \<times> DocumentChunk list) list"
| OtherShape

text \<open>Reading the snapshot, inside the \<^verbatim>\<open>try\<close> of \<^verbatim>\<open>loadIndex\<close>: no file gives nothing,
  a file that cannot be read, parsed or turned into a map throws, any other file gives
  its map, of whatever shape.\<close>

definition read_snapshot :: "snapshot_file \<Rightarrow> io_error + parsed_map option" where
  "read_snapshot f =
     (case f of
        NoFile \<Rightarrow> Inr None
      | Unparsable \<Rightarrow> Inl ReadError
      | Misshaped \<Rightarrow> Inr (Some OtherShape)
      | Snapshot es \<Rightarrow> Inr (Some (ChunkArrays es)))"

text \<open>Writing the snapshot, inside the \<^verbatim>\<open>try\<close> of \<^verbatim>\<open>saveIndex\<close>; whether the file system
  accepts the write is given by \<open>ok\<close>.\<close>

definition write_snapshot :: "bool \<Rightarrow> (string \<times> DocumentChunk list) list \<Rightarrow> io_error + snapshot_file" where
  "write_snapshot ok es = (if ok then Inr (Snapshot es) else Inl WriteError)"

definition saveIndex :: "SearchEngine \<Rightarrow> bool \<Rightarrow> SearchEngine" where
  "saveIndex eng ok =
     (case write_snapshot ok (entries eng) of
        Inr f \<Rightarrow> eng\<lparr> snapshot := f \<rparr>
      | Inl error \<Rightarrow> eng\<lparr> console := console eng @ [SaveFailed] \<rparr>)"

text \<open>
  The engine after \<^verbatim>\<open>loadIndex\<close>. It is \<open>Typed\<close>, an engine as above, unless the map that
  was loaded is of another shape: then the index holds what the file held, values that
  are not arrays of chunks among them, and the engine is \<open>Untyped\<close>, with the lines of the
  console. The operations of this theory are those of typed engines; they say nothing
  about what a call does on an untyped one.
\<close>

datatype started = Typed SearchEngine | Untyped "log_event list"

text \<open>\<^verbatim>\<open>new Map(JSON.parse(data))\<close> sets the entries one after the other in a new map; the
  index is replaced only when all of that has succeeded. No shape is checked: a map of
  another shape becomes the index as well. What the \<^verbatim>\<open>try\<close> throws, the \<^verbatim>\<open>catch\<close> logs.\<close>

definition loadIndex :: "SearchEngine \<Rightarrow> started" where
  "loadIndex eng =
     (case read_snapshot (snapshot eng) of
        Inr None \<Rightarrow> Typed eng
      | Inr (Some (ChunkArrays es)) \<Rightarrow>
          Typed ((fold (\<lambda>(pid, chunks) e. set_entry e pid chunks) es (eng\<lparr> index := [] \<rparr>))
                   \<lparr> console := console eng @ [Loaded] \<rparr>)
      | Inr (Some OtherShape) \<Rightarrow> Untyped (console eng @ [Loaded])
      | Inl error \<Rightarrow> Typed (eng\<lparr> console := console eng @ [LoadFailed] \<rparr>))"

text \<open>The fields as they are initialised, before the body of the constructor runs: an
  empty map.\<close>

definition initial_engine :: "snapshot_file \<Rightarrow> SearchEngine" where
  "initial_engine f =
     \<lparr> index = [], arrays = (\<lambda>r. []), next_ref = 0, snapshot = f, console = [] \<rparr>"

text \<open>The constructor, for a given state of the snapshot file.\<close>

definition new_engine :: "snapshot_file \<Rightarrow> started" where
  "new_engine f = loadIndex (initial_engine f)"

definition indexProject :: "SearchEngine \<Rightarrow> string \<Rightarrow> DocumentChunk list \<Rightarrow> bool \<Rightarrow> SearchEngine" where
  "indexProject eng pid chunks ok =
     saveIndex ((set_entry eng pid chunks)\<lparr> console := console eng @ [Indexed (length chunks) pid] \<rparr>) ok"

definition clearIndex :: "SearchEngine \<Rightarrow> string \<Rightarrow> bool \<Rightarrow> SearchEngine" where
  "clearIndex eng pid ok = saveIndex (eng\<lparr> index := AList.delete pid (index eng) \<rparr>) ok"

section \<open>The search engine: queries\<close>

subsection \<open>The candidate chunks\<close>

text \<open>The test \<^verbatim>\<open>projectId && this.index.has(projectId)\<close>: an absent and an empty
  \<^verbatim>\<open>projectId\<close> are both falsy. It gives the reference of the project's array.\<close>

definition requested :: "SearchEngine \<Rightarrow> string option \<Rightarrow> (string \<times> array_ref) option" where
  "requested eng pid =
     (case pid of
        None \<Rightarrow> None
      | Some p \<Rightarrow> if p = [] then None
                  else (case map_of (index eng) p of None \<Rightarrow> None | Some r \<Rightarrow> Some (p, r)))"

text \<open>
  The first branch sets \<^verbatim>\<open>allChunks\<close> to the array that the index holds for the project and
  then pushes the chunks of every other entry onto it: the pushes go to the store. The
  second branch pushes onto a new array, which the index does not hold.
\<close>

definition collect_chunks :: "SearchEngine \<Rightarrow> string option \<Rightarrow> DocumentChunk list \<times> SearchEngine" where
  "collect_chunks eng pid =
     (case requested eng pid of
        Some (p, allChunks) \<Rightarrow>
          (let arrays' = fold (\<lambda>(pid', chunks) h.
                                 if pid' \<noteq> p then h(allChunks := h allChunks @ h chunks) else h)
                           (index eng) (arrays eng)
           in (arrays' allChunks, eng\<lparr> arrays := arrays' \<rparr>))
      | None \<Rightarrow>
          (fold (\<lambda>(pid', chunks) allChunks. allChunks @ arrays eng chunks) (index eng) [], eng))"

subsection \<open>Statistics of the candidates\<close>

definition avgDocLength :: "DocumentChunk list \<Rightarrow> real" where
  "avgDocLength allChunks =
     real (fold (\<lambda>chunk sum. sum + length (content chunk)) allChunks 0) / real (length allChunks)"

definition docCount :: "DocumentChunk list \<Rightarrow> string \<Rightarrow> nat" where
  "docCount allChunks term0 =
     fold (\<lambda>chunk n. if js_includes (toLowerCase (content chunk)) term0 then n + 1 else n)
       allChunks 0"

definition idf_value :: "DocumentChunk list \<Rightarrow> string \<Rightarrow> real" where
  "idf_value allChunks term0 =
     ln (1 + (real (length allChunks) - real (docCount allChunks term0) + 0.5)
             / (real (docCount allChunks term0) + 0.5))"

text \<open>The record \<^verbatim>\<open>idf\<close>, filled for each query term in turn.\<close>

definition idf_table :: "DocumentChunk list \<Rightarrow> string list \<Rightarrow> (string \<rightharpoonup> real)" where
  "idf_table allChunks queryTerms =
     fold (\<lambda>term0 idf. idf(term0 \<mapsto> idf_value allChunks term0)) queryTerms Map.empty"

text \<open>\<^verbatim>\<open>idf[term]\<close>. The scoring loop reads the record at the query terms only, which the
  loop above has all assigned; the value for a key that is not there is not used.\<close>

definition idf_at :: "(string \<rightharpoonup> real) \<Rightarrow> string \<Rightarrow> real" where
  "idf_at idf term0 = (case idf term0 of Some v \<Rightarrow> v | None \<Rightarrow> 0)"

subsection \<open>Exact matches\<close>

text \<open>
  \<^verbatim>\<open>new RegExp(term, 'gi')\<close> for a term of the tokenizer, which is made of letters and digits:
  the pattern is the term itself, compared without regard to case.
\<close>

definition ci_eq :: "char \<Rightarrow> char \<Rightarrow> bool" where
  "ci_eq a b = (toLowerCase_char a = toLowerCase_char b)"

fun prefix_ci :: "string \<Rightarrow> string \<Rightarrow> bool" where
  "prefix_ci [] s = True"
| "prefix_ci (p # ps) [] = False"
| "prefix_ci (p # ps) (c # cs) = (ci_eq p c \<and> prefix_ci ps cs)"

text \<open>The matches of a global regular expression, from left to right: after a match the
  scan goes on behind it, and one character further when the match is empty.\<close>

function match_all :: "string \<Rightarrow> string \<Rightarrow> string list" where
  "match_all pat s =
     (if prefix_ci pat s then
        take (length pat) s # (if s = [] then [] else match_all pat (drop (max 1 (length pat)) s))
      else if s = [] then [] else match_all pat (tl s))"
  by pat_completeness auto
termination
  by (relation "measure (\<lambda>(pat, s). length s)") auto

declare match_all.simps [simp del]

text \<open>\<^verbatim>\<open>s.match(regex)\<close>: \<^verbatim>\<open>null\<close> when there is no match.\<close>

definition js_match :: "string \<Rightarrow> string \<Rightarrow> string list option" where
  "js_match s pat = (case match_all pat s of [] \<Rightarrow> None | m # ms \<Rightarrow> Some (m # ms))"

subsection \<open>Scoring one chunk\<close>

text \<open>The constants \<^verbatim>\<open>k1\<close> and \<^verbatim>\<open>b\<close> of the program.\<close>

definition k1 :: real where
  "k1 = 1.2"

definition bm25_b :: real where
  "bm25_b = 0.75"

text \<open>\<^verbatim>\<open>termFreq\<close> and \<^verbatim>\<open>matchType\<close> of one term: the exact matches, or else the loop over
  the tokens of the content.\<close>

definition term_match :: "DocumentChunk \<Rightarrow> string \<Rightarrow> nat \<times> MatchType option" where
  "term_match chunk0 term0 =
     (case js_match (toLowerCase (content chunk0)) term0 of
        Some matches \<Rightarrow> (length matches, Some Exact)
      | None \<Rightarrow>
          fold (\<lambda>token (termFreq, matchType0).
                  if fuzzy_match term0 token then (termFreq + 1, Some Fuzzy)
                  else (termFreq, matchType0))
            (tokenize (content chunk0)) (0, None))"

text \<open>The body of the loop over the query terms; its state is \<^verbatim>\<open>score\<close> and
  \<^verbatim>\<open>matchDetails\<close>.\<close>

definition score_term ::
  "(string \<rightharpoonup> real) \<Rightarrow> real \<Rightarrow> DocumentChunk \<Rightarrow> string \<Rightarrow> real \<times> MatchDetail list \<Rightarrow>
   real \<times> MatchDetail list" where
  "score_term idf avg chunk0 term0 st =
     (case st of (score0, details) \<Rightarrow>
      (case term_match chunk0 term0 of (termFreq, matchType0) \<Rightarrow>
         if termFreq > 0 then
           (let docLength = real (length (content chunk0));
                numerator = idf_at idf term0 * real termFreq * (k1 + 1);
                denominator = real termFreq + k1 * (1 - bm25_b + bm25_b * (docLength / avg))
            in (score0 + numerator / denominator,
                details @ [\<lparr> md_term = term0, matchType = matchType0 \<rparr>]))
         else (score0, details)))"

text \<open>\<^verbatim>\<open>chunk.metadata.title?.toLowerCase() || ''\<close>.\<close>

definition titleLower :: "DocumentChunk \<Rightarrow> string" where
  "titleLower chunk0 = (case title (metadata chunk0) of None \<Rightarrow> [] | Some t \<Rightarrow> toLowerCase t)"

definition title_boost :: "DocumentChunk \<Rightarrow> string \<Rightarrow> real \<Rightarrow> real" where
  "title_boost chunk0 term0 score0 =
     (if js_includes (titleLower chunk0) term0 then score0 + 2.0 else score0)"

text \<open>\<^verbatim>\<open>projectId && chunk.projectId === projectId\<close>.\<close>

definition project_boost :: "string option \<Rightarrow> DocumentChunk \<Rightarrow> real \<Rightarrow> real" where
  "project_boost pid chunk0 score0 =
     (case pid of
        None \<Rightarrow> score0
      | Some p \<Rightarrow> if p \<noteq> [] \<and> projectId chunk0 = p then score0 * 1.5 else score0)"

text \<open>The function mapped over \<^verbatim>\<open>allChunks\<close>.\<close>

definition score_chunk ::
  "string option \<Rightarrow> string list \<Rightarrow> (string \<rightharpoonup> real) \<Rightarrow> real \<Rightarrow> DocumentChunk \<Rightarrow> SearchResult" where
  "score_chunk pid queryTerms idf avg chunk0 =
     (case fold (score_term idf avg chunk0) queryTerms (0, []) of
        (score0, details) \<Rightarrow>
          \<lparr> chunk = chunk0,
            score = project_boost pid chunk0 (fold (title_boost chunk0) queryTerms score0),
            matchDetails = details \<rparr>)"

subsection \<open>Ranking\<close>

text \<open>\<^verbatim>\<open>sort((a, b) => b.score - a.score)\<close>: by descending score, and stable.\<close>

definition sort_by_score :: "SearchResult list \<Rightarrow> SearchResult list" where
  "sort_by_score rs = sort_key (\<lambda>r. - score r) rs"

text \<open>\<^verbatim>\<open>slice(0, limit)\<close> for an integer \<^verbatim>\<open>limit\<close>: a negative one counts from the end.\<close>

definition slice_to :: "'a list \<Rightarrow> int \<Rightarrow> 'a list" where
  "slice_to xs limit =
     (if limit < 0 then take (nat (int (length xs) + limit)) xs else take (nat limit) xs)"

definition search ::
  "SearchEngine \<Rightarrow> string option \<Rightarrow> string \<Rightarrow> int \<Rightarrow> SearchResult list \<times> SearchEngine" where
  "search eng pid query limit =
     (case collect_chunks eng pid of (allChunks, eng') \<Rightarrow>
        if length allChunks = 0 then ([], eng')
        else
          (let queryTerms = tokenize query
           in if length queryTerms = 0 then ([], eng')
              else
                (let avg = avgDocLength allChunks;
                     idf = idf_table allChunks queryTerms;
                     scoredChunks = map (score_chunk pid queryTerms idf avg) allChunks
                 in (slice_to (sort_by_score (filter (\<lambda>item. score item > 0) scoredChunks)) limit,
                     eng'))))"

subsection \<open>Notions used to state the properties of the search\<close>

text \<open>The match detail that a term of positive frequency leaves, and what it adds to the
  score.\<close>

definition detail_of :: "DocumentChunk \<Rightarrow> string \<Rightarrow> MatchDetail" where
  "detail_of c t = \<lparr> md_term = t, matchType = snd (term_match c t) \<rparr>"

definition term_contribution :: "(string \<rightharpoonup> real) \<Rightarrow> real \<Rightarrow> DocumentChunk \<Rightarrow> string \<Rightarrow> real" where
  "term_contribution idf avg c t =
     (if 0 < fst (term_match c t) then
        idf_at idf t * real (fst (term_match c t)) * (k1 + 1)
          / (real (fst (term_match c t))
             + k1 * (1 - bm25_b + bm25_b * (real (length (content c)) / avg)))
      else 0)"




section \<open>The score as the specification words it\<close>

text \<open>The term occurs in the text at position \<open>i\<close>, without regard to case.\<close>

definition occurs_at :: "string \<Rightarrow> string \<Rightarrow> nat \<Rightarrow> bool" where
  "occurs_at t s i =
     (i + length t \<le> length s \<and> toLowerCase (take (length t) (drop i s)) = toLowerCase t)"

text \<open>The number of occurrences of the term from position \<open>i\<close> on, counted as a global
  match counts them: from left to right, the next one after the end of the one before.\<close>

function count_occurrences :: "string \<Rightarrow> string \<Rightarrow> nat \<Rightarrow> nat" where
  "count_occurrences t s i =
     (if length s < i + length t then 0
      else if occurs_at t s i then 1 + count_occurrences t s (i + max 1 (length t))
      else count_occurrences t s (i + 1))"
  by pat_completeness auto
termination
  by (relation "measure (\<lambda>(t, s, i). Suc (length s) - i)") auto

declare count_occurrences.simps [simp del]

text \<open>The term is a substring of the text, without regard to case.\<close>

definition ci_substring :: "string \<Rightarrow> string \<Rightarrow> bool" where
  "ci_substring t s = list_ex (occurs_at t s) [0..<Suc (length s)]"

definition ref_termFreq :: "DocumentChunk \<Rightarrow> string \<Rightarrow> nat" where
  "ref_termFreq c t =
     (if 1 \<le> count_occurrences t (content c) 0 then count_occurrences t (content c) 0
      else length (filter (\<lambda>token. levenshteinDistance t token \<le> 2) (tokenize (content c))))"

definition ref_bm25 :: "(string \<rightharpoonup> real) \<Rightarrow> real \<Rightarrow> DocumentChunk \<Rightarrow> string \<Rightarrow> real" where
  "ref_bm25 idf avg c t =
     (if 0 < ref_termFreq c t then
        idf_at idf t * real (ref_termFreq c t) * (1.2 + 1)
          / (real (ref_termFreq c t)
             + 1.2 * (1 - 0.75 + 0.75 * (real (length (content c)) / avg)))
      else 0)"

definition ref_title :: "DocumentChunk \<Rightarrow> string" where
  "ref_title c = (case title (metadata c) of None \<Rightarrow> [] | Some t \<Rightarrow> t)"

definition ref_score ::
  "string option \<Rightarrow> string list \<Rightarrow> (string \<rightharpoonup> real) \<Rightarrow> real \<Rightarrow> DocumentChunk \<Rightarrow> real" where
  "ref_score pid ts idf avg c =
     (sum_list (map (ref_bm25 idf avg c) ts)
      + 2.0 * real (length (filter (\<lambda>t. ci_substring t (ref_title c)) ts)))
     * (if pid = Some (projectId c) then 1.5 else 1)"

section \<open>Sample data\<close>

definition sample_a :: DocumentChunk where
  "sample_a =
     \<lparr> chunk_id = ''A:notes.txt:1'', projectId = ''A'', filePath = ''notes.txt'',
       content = ''hello world'',
       metadata = \<lparr> title = None, type = Text, startLine = Some 1, endLine = Some 1 \<rparr> \<rparr>"

definition sample_b :: DocumentChunk where
  "sample_b =
     \<lparr> chunk_id = ''B:README.md:1'', projectId = ''B'', filePath = ''README.md'',
       content = ''zzz'',
       metadata = \<lparr> title = Some ''Foo'', type = Markdown, startLine = Some 1, endLine = Some 1 \<rparr> \<rparr>"

text \<open>An engine that starts without a snapshot, which is the initial one then, and
  indexes two collections.\<close>

definition sample_engine :: SearchEngine where
  "sample_engine =
     indexProject (indexProject (initial_engine NoFile) ''A'' [sample_a] True) ''B'' [sample_b] True"

text \<open>The sample engine after a search that names the collection A.\<close>

definition leaked_engine :: SearchEngine where
  "leaked_engine = snd (search sample_engine (Some ''A'') ''foo'' 5)"


section \<open>Properties of the chunker\<close>

subsection \<open>Splitting and joining lines\<close>

lemma split_on_nonempty: "split_on c s \<noteq> []"
  by (induction s) (auto simp: Let_def)

lemma length_split_on: "length (split_on c s) = Suc (count_list s c)"
proof (induction s)
  case Nil
  show ?case by simp
next
  case (Cons x xs)
  have "length (tl (split_on c xs)) = count_list xs c"
    using Cons by simp
  with Cons show ?case by (simp add: Let_def)
qed

lemma join_with_Cons: "ps \<noteq> [] \<Longrightarrow> join_with c (p # ps) = p @ c # join_with c ps"
  by (cases ps) auto

lemma join_split_on: "join_with c (split_on c s) = s"
proof (induction s)
  case Nil
  show ?case by simp
next
  case (Cons x xs)
  obtain p ps where sp: "split_on c xs = p # ps"
    using split_on_nonempty [of c xs] by (cases "split_on c xs") auto
  show ?case
  proof (cases "x = c")
    case True
    with Cons sp show ?thesis by (simp add: join_with_Cons)
  next
    case False
    with Cons sp show ?thesis by (cases ps) (auto simp: Let_def)
  qed
qed

subsection \<open>The text strategy\<close>

lemma count_list_replicate: "count_list (replicate n a) c = (if a = c then n else 0)"
  by (induction n) auto

lemma text_ext: "extension ''notes.txt'' = ''txt''"
  by (simp add: extension_def toLowerCase_def toLowerCase_char_def upper_chars_def lower_chars_def)

text \<open>
  Claim C5. A file that is neither markdown nor code is chunked by the text strategy:
  \<^verbatim>\<open>chunkDocument\<close> returns exactly one chunk, its content is the first
  \<open>min 10000 (length text)\<close> characters of the input, so exactly 10000 characters when the
  input is longer, and its \<^verbatim>\<open>endLine\<close> is the number of lines of the whole input, one more
  than the number of its line feeds.
\<close>

theorem chunkText_truncates:
  assumes "extension fp \<noteq> ''md''" and "extension fp \<noteq> ''markdown''"
    and "extension fp \<notin> set code_extensions"
  shows "\<exists>c. chunkDocument pid fp text = [c]
           \<and> content c = take (min 10000 (length text)) text
           \<and> (10000 < length text \<longrightarrow> length (content c) = 10000)
           \<and> endLine (metadata c) = Some (Suc (count_list text newline))"
  using assms by (simp add: chunkDocument_def chunkText_def length_split_on min_def)

theorem chunkText_truncates_witness:
  "\<exists>c. chunkDocument ''p'' ''notes.txt'' (replicate 10001 newline) = [c]
           \<and> length (content c) = 10000
           \<and> endLine (metadata c) = Some 10002"
  using chunkText_truncates [of "''notes.txt''" "''p''" "replicate 10001 newline"]
  by (auto simp: text_ext code_extensions_def count_list_replicate)

subsection \<open>The code strategy\<close>

text \<open>The loop in closed form: window \<open>k\<close> starts \<open>40 * k\<close> lines after the first one.\<close>

lemma chunkCode_loop_closed:
  "i < length lines \<Longrightarrow>
   chunkCode_loop pid fp lines i chunks =
     chunks @ map (\<lambda>k. code_chunk pid fp lines (i + 40 * k) (min (i + 40 * k + 50) (length lines)))
                [0..<Suc ((length lines - i - 11) div 40)]"
proof (induction pid fp lines i chunks rule: chunkCode_loop.induct)
  case (1 pid fp lines i chunks)
  let ?N = "length lines"
  let ?f = "\<lambda>j k. code_chunk pid fp lines (j + 40 * k) (min (j + 40 * k + 50) ?N)"
  show ?case
  proof (cases "?N \<le> i + 50")
    case True
    then have "(?N - i - 11) div 40 = 0" by simp
    moreover have "chunkCode_loop pid fp lines i chunks = chunks @ [code_chunk pid fp lines i ?N]"
      using True "1.prems"
      by (subst chunkCode_loop.simps) (simp add: CHUNK_SIZE_def OVERLAP_def min_def)
    ultimately show ?thesis using True by (simp add: min_def)
  next
    case False
    then have lt: "i + 40 < ?N" by simp
    have step: "chunkCode_loop pid fp lines i chunks =
                chunkCode_loop pid fp lines (i + 40) (chunks @ [code_chunk pid fp lines i (i + 50)])"
      using False "1.prems"
      by (subst chunkCode_loop.simps) (simp add: CHUNK_SIZE_def OVERLAP_def min_def)
    have ih: "chunkCode_loop pid fp lines (i + 40) (chunks @ [code_chunk pid fp lines i (i + 50)]) =
              (chunks @ [code_chunk pid fp lines i (i + 50)]) @
                map (?f (i + 40)) [0..<Suc ((?N - (i + 40) - 11) div 40)]"
      using "1.IH" [of "min (i + CHUNK_SIZE) ?N" "chunks @ [code_chunk pid fp lines i (i + 50)]"]
        False "1.prems" lt
      by (simp add: CHUNK_SIZE_def OVERLAP_def min_def)
    have "?N - i - 11 = (?N - (i + 40) - 11) + 40"
      using False by simp
    then have k: "(?N - i - 11) div 40 = Suc ((?N - (i + 40) - 11) div 40)"
      by simp
    have shift: "map (?f i) [0..<Suc (Suc m)] = ?f i 0 # map (?f (i + 40)) [0..<Suc m]" for m
    proof -
      have "?f i (Suc k) = ?f (i + 40) k" for k
        by (simp add: algebra_simps)
      then show ?thesis
        by (subst map_upt_Suc) (simp del: upt_Suc)
    qed
    have f0: "?f i 0 = code_chunk pid fp lines i (i + 50)"
      using False by (simp add: min_def)
    show ?thesis
      unfolding step ih k shift f0 by simp
  qed
qed

lemma chunkCode_closed:
  "chunkCode pid fp text =
     map (\<lambda>k. code_chunk pid fp (split_on newline text) (40 * k)
                 (min (40 * k + 50) (length (split_on newline text))))
       [0..<Suc ((length (split_on newline text) - 11) div 40)]"
  using chunkCode_loop_closed [of 0 "split_on newline text" pid fp "[]"]
  by (simp add: chunkCode_def length_split_on)

lemma code_ext_not_md:
  "extension fp \<in> set code_extensions \<Longrightarrow> extension fp \<noteq> ''md'' \<and> extension fp \<noteq> ''markdown''"
  by (auto simp: code_extensions_def)

text \<open>
  Claim C4. For a code file of \<open>N\<close> lines the chunks are the windows of the claim: there is
  at least one, the first spans lines 1 to \<open>min 50 N\<close>, each later window starts 40 lines
  after the start of the one before it, a window that starts at line \<open>s\<close> ends at
  \<open>min (s + 49) N\<close> and holds exactly these lines, and the window that ends at line \<open>N\<close>
  is the last one and the only one to do so.
\<close>

theorem chunkCode_sliding_windows:
  assumes "extension fp \<in> set code_extensions"
  shows "let lines = split_on newline text; N = Suc (count_list text newline);
             chunks = chunkDocument pid fp text
         in length lines = N \<and> chunks \<noteq> []
          \<and> startLine (metadata (chunks ! 0)) = Some 1
          \<and> endLine (metadata (chunks ! 0)) = Some (min 50 N)
          \<and> (\<forall>k. Suc k < length chunks \<longrightarrow>
                (\<exists>s. startLine (metadata (chunks ! k)) = Some s
                   \<and> startLine (metadata (chunks ! Suc k)) = Some (s + 40)))
          \<and> (\<forall>k < length chunks.
                (\<exists>s. startLine (metadata (chunks ! k)) = Some s
                   \<and> endLine (metadata (chunks ! k)) = Some (min (s + 49) N)
                   \<and> content (chunks ! k) =
                       join_with newline (take (min (s + 49) N - (s - 1)) (drop (s - 1) lines))))
          \<and> (\<forall>k < length chunks.
                (endLine (metadata (chunks ! k)) = Some N) = (Suc k = length chunks))"
proof -
  let ?N = "Suc (count_list text newline)"
  have cd: "chunkDocument pid fp text = chunkCode pid fp text"
    using assms code_ext_not_md [OF assms] by (simp add: chunkDocument_def)
  have last: "(min (40 * k + 50) ?N = ?N) = (k = (?N - 11) div 40)" if "k \<le> (?N - 11) div 40" for k
  proof -
    have "(?N - 11) mod 40 < 40"
      by simp
    moreover have "(?N - 11) div 40 * 40 + (?N - 11) mod 40 = ?N - 11"
      by (rule div_mult_mod_eq)
    ultimately show ?thesis using that by (simp add: min_def) linarith
  qed
  show ?thesis
    unfolding Let_def cd chunkCode_closed length_split_on
    using last by (auto simp: code_chunk_def slice_def nth_append less_Suc_eq_le add.commute simp del: upt_Suc)
qed

lemma ts_ext: "extension ''a.ts'' = ''ts''"
  by (simp add: extension_def toLowerCase_def toLowerCase_char_def upper_chars_def lower_chars_def)

theorem chunkCode_sliding_windows_witness:
  "extension ''a.ts'' \<in> set code_extensions
   \<and> chunkDocument ''p'' ''a.ts'' (replicate 90 newline) \<noteq> []
   \<and> startLine (metadata (chunkDocument ''p'' ''a.ts'' (replicate 90 newline) ! 0)) = Some 1
   \<and> endLine (metadata (chunkDocument ''p'' ''a.ts'' (replicate 90 newline) ! 0)) = Some 50"
proof -
  have h: "extension ''a.ts'' \<in> set code_extensions"
    by (simp add: ts_ext code_extensions_def)
  show ?thesis
    using h chunkCode_sliding_windows [OF h, of "replicate 90 newline" "''p''"]
    by (simp add: Let_def count_list_replicate)
qed

subsection \<open>The markdown strategy\<close>

lemma headings_from_eq:
  "headings_from i ls = map (\<lambda>k. Suc (i + k)) (filter (\<lambda>k. is_heading (ls ! k)) [0..<length ls])"
proof (induction ls arbitrary: i)
  case Nil
  show ?case by simp
next
  case (Cons l ls)
  have "[0..<Suc (length ls)] = 0 # map Suc [0..<length ls]"
    by (simp add: map_Suc_upt upt_conv_Cons del: upt_Suc)
  then show ?case
    using Cons [of "Suc i"] by (simp add: filter_map comp_def del: upt_Suc)
qed

lemma heading_line_numbers_eq: "heading_line_numbers ls = headings_from 0 ls"
  by (simp add: heading_line_numbers_def headings_from_eq)

lemma chunkMarkdown_loop_starts:
  "map (\<lambda>c. startLine (metadata c))
     (chunkMarkdown_last pid fp n (chunkMarkdown_loop pid fp rest i (chunks, cur, ttl, start))) =
   map (\<lambda>c. startLine (metadata c)) chunks
   @ (if cur \<noteq> [] \<or> (rest \<noteq> [] \<and> \<not> is_heading (hd rest)) then [Some start] else [])
   @ map Some (headings_from i rest)"
proof (induction rest arbitrary: i chunks cur ttl start)
  case Nil
  show ?case by (simp add: markdown_chunk_def)
next
  case (Cons line rest)
  show ?case
  proof (cases "is_heading line")
    case True
    then show ?thesis
      by (simp add: Cons.IH markdown_chunk_def)
  next
    case False
    then show ?thesis
      by (simp add: Cons.IH)
  qed
qed

lemma chunkMarkdown_loop_plain:
  "\<forall>l \<in> set rest. \<not> is_heading l \<Longrightarrow>
   chunkMarkdown_loop pid fp rest i (chunks, cur, ttl, start) = (chunks, cur @ rest, ttl, start)"
  by (induction rest arbitrary: i cur) auto

lemma no_headings_iff: "(headings_from i ls = []) = (\<forall>l \<in> set ls. \<not> is_heading l)"
  by (induction ls arbitrary: i) auto

text \<open>
  Claim C3. For a markdown file: when no line is a heading of level 1 to 3,
  \<^verbatim>\<open>chunkDocument\<close> returns exactly one chunk, titled Introduction, from line 1 to the last
  line and holding the whole document; when there are headings, there is one chunk for each
  heading line, and one more before them when the first line is not a heading, and the
  chunks start, in order, at line 1 (for that leading chunk) and at the lines of the headings.
\<close>

theorem chunkMarkdown_headings:
  assumes "extension fp = ''md'' \<or> extension fp = ''markdown''"
  shows "let lines = split_on newline text; hs = heading_line_numbers lines;
             chunks = chunkDocument pid fp text
         in (hs = [] \<longrightarrow>
               (\<exists>c. chunks = [c] \<and> title (metadata c) = Some ''Introduction''
                  \<and> startLine (metadata c) = Some 1 \<and> endLine (metadata c) = Some (length lines)
                  \<and> content c = text))
          \<and> (hs \<noteq> [] \<longrightarrow>
               length chunks = length hs + (if is_heading (hd lines) then 0 else 1)
             \<and> map (startLine \<circ> metadata) chunks =
                 (if is_heading (hd lines) then [] else [Some 1]) @ map Some hs)"
proof -
  let ?ls = "split_on newline text"
  have cd: "chunkDocument pid fp text = chunkMarkdown pid fp text"
    using assms by (auto simp: chunkDocument_def)
  have ne: "?ls \<noteq> []" by (rule split_on_nonempty)
  have plain: "\<exists>c. chunkMarkdown pid fp text = [c] \<and> title (metadata c) = Some ''Introduction''
                  \<and> startLine (metadata c) = Some 1 \<and> endLine (metadata c) = Some (length ?ls)
                  \<and> content c = text"
    if "heading_line_numbers ?ls = []"
  proof -
    from that have "\<forall>l \<in> set ?ls. \<not> is_heading l"
      by (simp add: heading_line_numbers_eq no_headings_iff)
    then show ?thesis
      using ne by (simp add: chunkMarkdown_def Let_def chunkMarkdown_loop_plain markdown_chunk_def join_split_on)
  qed
  have starts: "map (startLine \<circ> metadata) (chunkMarkdown pid fp text) =
                 (if is_heading (hd ?ls) then [] else [Some 1]) @ map Some (heading_line_numbers ?ls)"
    using ne chunkMarkdown_loop_starts [of pid fp "length ?ls" ?ls 0 "[]" "[]" "''Introduction''" 1]
    by (simp add: chunkMarkdown_def heading_line_numbers_eq Let_def comp_def)
  have "length (chunkMarkdown pid fp text) = length (map (startLine \<circ> metadata) (chunkMarkdown pid fp text))"
    by simp
  also have "\<dots> = length (heading_line_numbers ?ls) + (if is_heading (hd ?ls) then 0 else 1)"
    unfolding starts by simp
  finally show ?thesis
    using plain starts unfolding Let_def cd by blast
qed

lemma md_ext: "extension ''README.MD'' = ''md''"
  by (simp add: extension_def toLowerCase_def toLowerCase_char_def upper_chars_def lower_chars_def)

theorem chunkMarkdown_headings_witness:
  "(extension ''README.MD'' = ''md'' \<or> extension ''README.MD'' = ''markdown'')
   \<and> heading_line_numbers (split_on newline (''intro'' @ [newline] @ ''# A'' @ [newline] @ ''## B'')) = [2, 3]
   \<and> map (startLine \<circ> metadata)
        (chunkDocument ''p'' ''README.MD'' (''intro'' @ [newline] @ ''# A'' @ [newline] @ ''## B''))
      = [Some 1, Some 2, Some 3]"
proof -
  have h: "extension ''README.MD'' = ''md'' \<or> extension ''README.MD'' = ''markdown''"
    by (simp add: md_ext)
  have hs: "heading_line_numbers (split_on newline (''intro'' @ [newline] @ ''# A'' @ [newline] @ ''## B'')) = [2, 3]"
    by (simp add: heading_line_numbers_eq newline_def is_heading_def is_space_def eval_nat_numeral)
  show ?thesis
    using h hs chunkMarkdown_headings [OF h, of "''intro'' @ [newline] @ ''# A'' @ [newline] @ ''## B''" "''p''"]
    by (simp add: Let_def newline_def is_heading_def is_space_def)
qed


section \<open>Properties of the tokenizer\<close>

lemma tokenize_parts_eq:
  "tokenize_parts parts tokens = tokens @ filter keep_token (map toLowerCase parts)"
  by (induction parts arbitrary: tokens) (auto simp: Let_def keep_token_def)

lemma tokenize_raw_eq:
  "tokenize_raw raw tokens =
     tokens @ concat (map (\<lambda>t. filter keep_token (map toLowerCase (split_on (CHR '' '') (camel_replace t))))
                          (filter (\<lambda>t. t \<noteq> []) raw))"
  by (induction raw arbitrary: tokens) (auto simp: tokenize_parts_eq)

lemma fragments_Nil: "fragments [] = []"
  by (simp add: fragments.simps)

lemma fragments_skip: "\<not> is_alnum c \<Longrightarrow> fragments (c # cs) = fragments cs"
  by (subst fragments.simps, subst (2) fragments.simps) simp

lemma fragments_take:
  "is_alnum c \<Longrightarrow>
   fragments (c # cs) = (c # takeWhile is_alnum cs) # fragments (dropWhile is_alnum cs)"
  by (subst fragments.simps) simp

lemma fragments_head:
  "fragments s =
     (if takeWhile is_alnum s = [] then fragments (dropWhile is_alnum s)
      else takeWhile is_alnum s # fragments (dropWhile is_alnum s))"
  by (cases s) (auto simp: fragments_take)

lemma split_non_alnum_shape:
  "\<exists>ps. split_non_alnum s = takeWhile is_alnum s # ps
        \<and> filter (\<lambda>t. t \<noteq> []) ps = fragments (dropWhile is_alnum s)"
proof (induction s)
  case Nil
  show ?case by (simp add: fragments_Nil)
next
  case (Cons c cs)
  then obtain ps where r: "split_non_alnum cs = takeWhile is_alnum cs # ps"
    and ps: "filter (\<lambda>t. t \<noteq> []) ps = fragments (dropWhile is_alnum cs)"
    by blast
  show ?case
  proof (cases "is_alnum c")
    case True
    with r ps show ?thesis by (simp add: Let_def)
  next
    case False
    show ?thesis
    proof (cases cs)
      case Nil
      with False show ?thesis by (simp add: fragments_skip fragments_Nil)
    next
      case cs: (Cons d ds)
      show ?thesis
      proof (cases "is_alnum d")
        case True
        with False cs r ps show ?thesis
          by (simp add: fragments_skip fragments_take)
      next
        case nd: False
        with False cs r ps show ?thesis
          by (simp add: fragments_skip)
      qed
    qed
  qed
qed

lemma fragments_split_non_alnum: "filter (\<lambda>t. t \<noteq> []) (split_non_alnum s) = fragments s"
proof -
  obtain ps where r: "split_non_alnum s = takeWhile is_alnum s # ps"
    and ps: "filter (\<lambda>t. t \<noteq> []) ps = fragments (dropWhile is_alnum s)"
    using split_non_alnum_shape [of s] by blast
  have "filter (\<lambda>t. t \<noteq> []) (split_non_alnum s) =
          (if takeWhile is_alnum s = [] then [] else [takeWhile is_alnum s])
          @ fragments (dropWhile is_alnum s)"
    by (simp add: r ps)
  also have "\<dots> = fragments s"
    using fragments_head [of s] by simp
  finally show ?thesis .
qed

lemma fragments_alnum: "t \<in> set (fragments s) \<Longrightarrow> \<forall>c \<in> set t. is_alnum c"
proof (induction s arbitrary: t rule: length_induct)
  case (1 s)
  show ?case
  proof (cases "takeWhile is_alnum s = []")
    case True
    then have "dropWhile is_alnum s = s"
      by (cases s) (auto split: if_splits)
    show ?thesis
    proof (cases s)
      case Nil
      with "1.prems" show ?thesis by (simp add: fragments_Nil)
    next
      case (Cons c cs)
      with True have "\<not> is_alnum c" by (auto split: if_splits)
      with Cons "1.prems" have "t \<in> set (fragments cs)" by (simp add: fragments_skip)
      with "1.IH" [rule_format, of cs t] Cons show ?thesis by simp
    qed
  next
    case False
    then have lt: "length (dropWhile is_alnum s) < length s"
      by (cases s) (auto split: if_splits simp: less_Suc_eq_le length_dropWhile_le)
    from False "1.prems" have "t = takeWhile is_alnum s \<or> t \<in> set (fragments (dropWhile is_alnum s))"
      by (subst (asm) fragments_head) simp
    then show ?thesis
    proof
      assume "t = takeWhile is_alnum s"
      then show ?thesis by (auto dest: set_takeWhileD)
    next
      assume "t \<in> set (fragments (dropWhile is_alnum s))"
      with "1.IH" [rule_format, of "dropWhile is_alnum s" t] lt show ?thesis by simp
    qed
  qed
qed

lemma upper_not_lower: "is_upper c \<Longrightarrow> \<not> is_lower c"
  by (auto simp: is_upper_def is_lower_def upper_chars_def lower_chars_def)

lemma space_not_alnum: "\<not> is_alnum (CHR '' '')"
  by (simp add: is_alnum_def upper_chars_def lower_chars_def digit_chars_def)

lemma sub_fragments_not_lower:
  "\<not> is_lower b \<Longrightarrow>
   sub_fragments (b # cs) = (b # hd (sub_fragments cs)) # tl (sub_fragments cs)"
  by (cases cs) (auto simp: Let_def)

lemma split_camel_replace:
  "CHR '' '' \<notin> set t \<Longrightarrow> split_on (CHR '' '') (camel_replace t) = sub_fragments t"
proof (induction t rule: camel_replace.induct)
  case (1 a b cs)
  show ?case
  proof (cases "is_lower a \<and> is_upper b")
    case True
    then have "\<not> is_lower b" by (simp add: upper_not_lower)
    with True 1 show ?thesis
      by (auto simp: Let_def sub_fragments_not_lower)
  next
    case False
    from "1.prems" have a: "a \<noteq> CHR '' ''" and rest: "CHR '' '' \<notin> set (b # cs)"
      by auto
    have cr: "camel_replace (a # b # cs) = a # camel_replace (b # cs)"
      using False by auto
    have ih: "split_on (CHR '' '') (camel_replace (b # cs)) = sub_fragments (b # cs)"
      using "1.IH"(2) [OF False rest] .
    show ?thesis
      unfolding cr using a ih False by (auto simp: Let_def)
  qed
qed (auto simp: Let_def)

text \<open>
  Claim C6. For every input, \<^verbatim>\<open>tokenize\<close> returns what the specification describes: the
  input is split at the runs of non-alphanumeric characters, each fragment is split between
  a lower-case letter and an upper-case letter that follows it, every sub-fragment is put
  in lower case, and those of length at most 2 or in the stop-word set are dropped, in
  order and with duplicates. In particular \<^verbatim>\<open>GitLabCrawlerTest\<close> gives git, lab, crawler, test.
\<close>

theorem tokenize_refines_spec:
  "tokenize s = tokenize_spec s
   \<and> tokenize ''GitLabCrawlerTest'' = [''git'', ''lab'', ''crawler'', ''test'']"
proof
  have frag: "split_on (CHR '' '') (camel_replace t) = sub_fragments t" if "t \<in> set (fragments s)" for t
  proof -
    from that have "\<forall>c \<in> set t. is_alnum c" by (rule fragments_alnum)
    then have "CHR '' '' \<notin> set t" using space_not_alnum by blast
    then show ?thesis by (rule split_camel_replace)
  qed
  have keep: "keep_token = (\<lambda>w. \<not> (length w \<le> 2 \<or> w \<in> set stopWords))"
    by (auto simp: keep_token_def isStopWord_def fun_eq_iff)
  have "tokenize s =
        concat (map (\<lambda>t. filter keep_token (map toLowerCase (split_on (CHR '' '') (camel_replace t))))
                    (fragments s))"
    by (simp add: tokenize_def tokenize_raw_eq fragments_split_non_alnum)
  also have "\<dots> = concat (map (\<lambda>t. filter keep_token (map toLowerCase (sub_fragments t))) (fragments s))"
    using frag by (simp cong: map_cong)
  also have "\<dots> = tokenize_spec s"
    by (simp add: tokenize_spec_def keep filter_concat map_concat comp_def)
  finally show "tokenize s = tokenize_spec s" .
next
  show "tokenize ''GitLabCrawlerTest'' = [''git'', ''lab'', ''crawler'', ''test'']"
    by code_simp
qed

section \<open>Properties of the Levenshtein distance\<close>

subsection \<open>The table of the program\<close>

lemma fold_upt_steps:
  "m \<le> n \<Longrightarrow> (\<And>k. m \<le> k \<Longrightarrow> k < n \<Longrightarrow> f k (S k) = S (Suc k)) \<Longrightarrow> fold f [m..<n] (S m) = S n"
proof (induction n)
  case 0
  then show ?case by simp
next
  case (Suc n)
  show ?case
  proof (cases "m = Suc n")
    case True
    then show ?thesis by simp
  next
    case False
    with Suc.prems have mn: "m \<le> n" by simp
    have "fold f [m..<n] (S m) = S n"
      using Suc.IH [OF mn] Suc.prems(2) by simp
    with mn Suc.prems(2) [of n] show ?thesis by simp
  qed
qed

lemma lev_Nil2: "lev xs [] = length xs"
  by (cases xs) auto

lemma table_cell_0: "j \<le> length a \<Longrightarrow> table_cell a b 0 j = j"
  by (simp add: table_cell_def lev_Nil2)

lemma table_cell_0': "i \<le> length b \<Longrightarrow> table_cell a b i 0 = i"
  by (simp add: table_cell_def)

lemma table_cell_Suc:
  assumes "i < length b" and "j < length a"
  shows "table_cell a b (Suc i) (Suc j) =
           (if b ! i = a ! j then table_cell a b i j
            else min (table_cell a b i j + 1)
                   (min (table_cell a b (Suc i) j + 1) (table_cell a b i (Suc j) + 1)))"
  using assms by (auto simp: table_cell_def take_Suc_conv_app_nth)

lemma matrix0_eq: "fold (\<lambda>i matrix. js_assign [] matrix i [i]) [0..<n] [] = map (\<lambda>i. [i]) [0..<n]"
  using fold_upt_steps [of 0 n "\<lambda>i matrix. js_assign [] matrix i [i]" "\<lambda>k. map (\<lambda>i. [i]) [0..<k]"]
  by (simp add: js_assign_def)

lemma matrix1_eq:
  assumes "matrix0 \<noteq> []" and "matrix0 ! 0 = [0]"
  shows "fold (\<lambda>j matrix. matrix[0 := js_assign 0 (matrix ! 0) j j]) [0..<Suc n] matrix0 =
           matrix0[0 := [0..<Suc n]]"
proof -
  let ?f = "\<lambda>j matrix. matrix[0 := js_assign (0::nat) (matrix ! 0) j j]"
  let ?S = "\<lambda>k. matrix0[0 := [0..<max 1 k]]"
  have "fold ?f [0..<Suc n] (?S 0) = ?S (Suc n)"
  proof (rule fold_upt_steps)
    fix k assume "k < Suc n"
    show "?f k (?S k) = ?S (Suc k)"
    proof (cases k)
      case 0
      with assms show ?thesis by (simp add: js_assign_def)
    next
      case (Suc k')
      with assms show ?thesis by (simp add: js_assign_def max_def)
    qed
  qed simp
  moreover have "?S 0 = matrix0"
    using assms by (simp add: list_update_same_conv)
  ultimately show ?thesis by (simp add: max_def)
qed

lemma table_rows_nth:
  "k \<le> length b \<Longrightarrow>
   table_rows a b i ! k = (if k \<le> i then map (table_cell a b k) [0..<Suc (length a)] else [k])"
  unfolding table_rows_def by (simp add: less_Suc_eq_le del: upt_Suc)

lemma length_table_rows: "length (table_rows a b i) = Suc (length b)"
  by (simp add: table_rows_def)

lemma cell_table:
  assumes i: "i < length b" and j: "j < length a"
    and M: "matrix = (table_rows a b i)[Suc i := map (table_cell a b (Suc i)) [0..<Suc j]]"
  shows "cell a b matrix (Suc i) (Suc j) = table_cell a b (Suc i) (Suc j)"
proof -
  have ri: "matrix ! i = map (table_cell a b i) [0..<Suc (length a)]"
    using i by (simp add: M table_rows_nth)
  have rs: "matrix ! Suc i = map (table_cell a b (Suc i)) [0..<Suc j]"
    using i by (simp add: M length_table_rows)
  have c1: "matrix ! i ! j = table_cell a b i j"
    unfolding ri using j by (simp del: upt_Suc)
  have c2: "matrix ! i ! Suc j = table_cell a b i (Suc j)"
    unfolding ri using j by (simp del: upt_Suc)
  have c3: "matrix ! Suc i ! j = table_cell a b (Suc i) j"
    unfolding rs by (simp del: upt_Suc)
  show ?thesis
    by (simp add: cell_def c1 c2 c3 table_cell_Suc [OF i j])
qed

lemma inner_loop_row:
  assumes i: "i < length b"
  shows "fold (\<lambda>j matrix. matrix[Suc i := js_assign 0 (matrix ! Suc i) j (cell a b matrix (Suc i) j)])
           [1..<Suc (length a)] (table_rows a b i) = table_rows a b (Suc i)"
proof -
  let ?f = "\<lambda>j matrix. matrix[Suc i := js_assign (0::nat) (matrix ! Suc i) j (cell a b matrix (Suc i) j)]"
  let ?S = "\<lambda>j. (table_rows a b i)[Suc i := map (table_cell a b (Suc i)) [0..<j]]"
  have "fold ?f [1..<Suc (length a)] (?S 1) = ?S (Suc (length a))"
  proof (rule fold_upt_steps)
    fix k assume k: "1 \<le> k" "k < Suc (length a)"
    then obtain j where kj: "k = Suc j" and j: "j < length a"
      by (cases k) auto
    have row: "?S k ! Suc i = map (table_cell a b (Suc i)) [0..<Suc j]"
      using i by (simp add: kj length_table_rows)
    have "cell a b (?S k) (Suc i) (Suc j) = table_cell a b (Suc i) (Suc j)"
      using cell_table [OF i j] kj by simp
    then show "?f k (?S k) = ?S (Suc k)"
      unfolding kj [symmetric] row [unfolded kj [symmetric]]
      by (simp add: kj js_assign_def)
  qed simp
  moreover have "?S 1 = table_rows a b i"
    using i by (simp add: list_update_same_conv table_rows_nth table_cell_0' length_table_rows)
  moreover have "?S (Suc (length a)) = table_rows a b (Suc i)"
    using i by (auto simp: list_eq_iff_nth_eq length_table_rows table_rows_nth nth_list_update
                     less_Suc_eq_le simp del: upt_Suc)
  ultimately show ?thesis by simp
qed

lemma outer_loop_table:
  "fold (\<lambda>i matrix.
           fold (\<lambda>j matrix. matrix[i := js_assign 0 (matrix ! i) j (cell a b matrix i j)])
             [1..<Suc (length a)] matrix)
     [1..<Suc (length b)] (table_rows a b 0) = table_rows a b (length b)"
proof -
  let ?g = "\<lambda>i matrix.
           fold (\<lambda>j matrix. matrix[i := js_assign (0::nat) (matrix ! i) j (cell a b matrix i j)])
             [1..<Suc (length a)] matrix"
  have "fold ?g [1..<Suc (length b)] (table_rows a b (1 - 1)) = table_rows a b (Suc (length b) - 1)"
  proof (rule fold_upt_steps [where S = "\<lambda>k. table_rows a b (k - 1)"])
    fix k assume k: "1 \<le> k" "k < Suc (length b)"
    then obtain i where ki: "k = Suc i" and i: "i < length b"
      by (cases k) auto
    show "?g k (table_rows a b (k - 1)) = table_rows a b (Suc k - 1)"
      using inner_loop_row [OF i, of a] by (simp add: ki)
  qed simp
  then show ?thesis by simp
qed

lemma levenshteinDistance_lev: "levenshteinDistance a b = lev (rev a) (rev b)"
proof (cases "a = [] \<or> b = []")
  case True
  then show ?thesis by (auto simp: levenshteinDistance_def lev_Nil2)
next
  case False
  let ?m0 = "map (\<lambda>i. [i]) [0..<Suc (length b)]"
  have m1: "fold (\<lambda>j matrix. matrix[0 := js_assign 0 (matrix ! 0) j j]) [0..<Suc (length a)] ?m0 =
            table_rows a b 0"
  proof -
    have "?m0 \<noteq> []" by simp
    moreover have "?m0 ! 0 = [0]" by (simp del: upt_Suc add: upt_conv_Cons)
    ultimately have "fold (\<lambda>j matrix. matrix[0 := js_assign 0 (matrix ! 0) j j]) [0..<Suc (length a)] ?m0
                     = ?m0[0 := [0..<Suc (length a)]]"
      by (rule matrix1_eq)
    also have "\<dots> = table_rows a b 0"
      by (auto simp: list_eq_iff_nth_eq table_rows_nth length_table_rows nth_list_update
                     table_cell_0 less_Suc_eq_le simp del: upt_Suc intro!: nth_equalityI)
    finally show ?thesis .
  qed
  have "table_rows a b (length b) ! length b ! length a = table_cell a b (length b) (length a)"
    by (simp add: table_rows_nth del: upt_Suc)
  then show ?thesis
    unfolding levenshteinDistance_def Let_def matrix0_eq m1 outer_loop_table
    using False by (simp add: table_cell_def)
qed

subsection \<open>Edits at the end of a string, and reversal\<close>

lemma edit1_append: "edit1 xs ys \<Longrightarrow> edit1 (xs @ zs) (ys @ zs)"
  by (induction rule: edit1.induct) (auto intro: edit1.intros)

lemma edit1_prepend: "edit1 xs ys \<Longrightarrow> edit1 (zs @ xs) (zs @ ys)"
  by (induction zs) (auto intro: edit1.inside)

lemma edit1_positions:
  "edit1 a b \<longleftrightarrow>
     (\<exists>u v y. a = u @ v \<and> b = u @ y # v)
   \<or> (\<exists>u v x. a = u @ x # v \<and> b = u @ v)
   \<or> (\<exists>u v x y. x \<noteq> y \<and> a = u @ x # v \<and> b = u @ y # v)"
  (is "?L \<longleftrightarrow> ?R")
proof
  assume ?L
  then show ?R
  proof (induction rule: edit1.induct)
    case (ins xs y)
    have "xs = [] @ xs \<and> y # xs = [] @ y # xs" by simp
    then show ?case by blast
  next
    case (del x xs)
    have "x # xs = [] @ x # xs \<and> xs = [] @ xs" by simp
    then show ?case by blast
  next
    case (sub x y xs)
    then have "x \<noteq> y \<and> x # xs = [] @ x # xs \<and> y # xs = [] @ y # xs" by simp
    then show ?case by blast
  next
    case (inside xs ys x)
    then consider (i) u v y where "xs = u @ v" "ys = u @ y # v"
      | (d) u v z where "xs = u @ z # v" "ys = u @ v"
      | (s) u v z y where "z \<noteq> y" "xs = u @ z # v" "ys = u @ y # v"
      by blast
    then show ?case
    proof cases
      case i
      then have "x # xs = (x # u) @ v \<and> x # ys = (x # u) @ y # v" by simp
      then show ?thesis by blast
    next
      case d
      then have "x # xs = (x # u) @ z # v \<and> x # ys = (x # u) @ v" by simp
      then show ?thesis by blast
    next
      case s
      then have "z \<noteq> y \<and> x # xs = (x # u) @ z # v \<and> x # ys = (x # u) @ y # v" by simp
      then show ?thesis by blast
    qed
  qed
next
  assume ?R
  then show ?L
    by (auto intro!: edit1_prepend intro: edit1.intros)
qed

lemma edit1_rev: "edit1 a b \<Longrightarrow> edit1 (rev a) (rev b)"
proof (induction rule: edit1.induct)
  case (ins xs y)
  show ?case using edit1_prepend [OF edit1.ins [of "[]" y], of "rev xs"] by simp
next
  case (del x xs)
  show ?case using edit1_prepend [OF edit1.del [of x "[]"], of "rev xs"] by simp
next
  case (sub x y xs)
  then show ?case using edit1_prepend [OF edit1.sub [of x y "[]"], of "rev xs"] by simp
next
  case (inside xs ys x)
  then show ?case by (simp add: edit1_append)
qed

lemma edits_rev: "edits n a b \<Longrightarrow> edits n (rev a) (rev b)"
  by (induction rule: edits.induct) (auto intro: edits.intros edit1_rev)

subsection \<open>The recurrence reaches its value by edits\<close>

lemma edits_first: "edit1 a b \<Longrightarrow> edits n b c \<Longrightarrow> edits (Suc n) a c"
proof (induction n arbitrary: c)
  case 0
  then have "c = b" by (auto elim: edits.cases)
  with 0 show ?case by (auto intro: edits.intros)
next
  case (Suc n)
  from Suc.prems(2) obtain d where "edits n b d" "edit1 d c"
    by (auto elim: edits.cases)
  with Suc show ?case by (auto intro: edits.more)
qed

lemma edits_Cons: "edits n a b \<Longrightarrow> edits n (x # a) (x # b)"
  by (induction rule: edits.induct) (auto intro: edits.intros edit1.inside)

lemma edits_insert_all: "edits (length ys) [] ys"
proof (induction ys)
  case Nil
  show ?case by (simp add: edits.none)
next
  case (Cons y ys)
  then have "edits (length ys) [y] (y # ys)" by (rule edits_Cons)
  with edit1.ins [of "[]" y] show ?case by (auto intro: edits_first)
qed

lemma edits_delete_all: "edits (length xs) xs []"
proof (induction xs)
  case Nil
  show ?case by (simp add: edits.none)
next
  case (Cons x xs)
  with edit1.del [of x xs] show ?case by (auto intro: edits_first)
qed

lemma lev_edits: "edits (lev xs ys) xs ys"
proof (induction xs ys rule: lev.induct)
  case (1 ys)
  show ?case by (simp add: edits_insert_all)
next
  case (2 v va)
  show ?case using edits_delete_all [of "v # va"] by simp
next
  case (3 x xs y ys)
  show ?case
  proof (cases "x = y")
    case True
    with 3 show ?thesis by (simp add: edits_Cons)
  next
    case False
    have s: "edits (Suc (lev xs ys)) (x # xs) (y # ys)"
      using edits_first [OF edit1.sub [OF False, of xs] edits_Cons [OF "3.IH"(2) [OF False], of y]] .
    have d: "edits (Suc (lev xs (y # ys))) (x # xs) (y # ys)"
      using edits_first [OF edit1.del [of x xs] "3.IH"(3) [OF False]] .
    have i: "edits (Suc (lev (x # xs) ys)) (x # xs) (y # ys)"
      using edits.more [OF "3.IH"(4) [OF False] edit1.ins [of ys y]] .
    from s d i False show ?thesis
      by (simp add: min_def)
  qed
qed

subsection \<open>No sequence of edits is shorter\<close>

lemma lev_grow:
  "lev xs ys \<le> Suc (lev (x # xs) ys) \<and> lev xs ys \<le> Suc (lev xs (y # ys))
   \<and> lev (x # xs) ys \<le> Suc (lev xs ys) \<and> lev xs (y # ys) \<le> Suc (lev xs ys)"
proof (induction "length xs + length ys" arbitrary: xs ys x y rule: less_induct)
  case less
  have add1: "lev (x # xs) ys \<le> Suc (lev xs ys)" for x
  proof (cases ys)
    case Nil
    then show ?thesis by (simp add: lev_Nil2)
  next
    case (Cons y' ys')
    have "lev xs ys' \<le> Suc (lev xs (y' # ys'))"
      using less [of xs ys' x y'] Cons by simp
    with Cons show ?thesis by (auto simp: min_def)
  qed
  have add2: "lev xs (y # ys) \<le> Suc (lev xs ys)" for y
  proof (cases xs)
    case Nil
    then show ?thesis by simp
  next
    case (Cons x' xs')
    have "lev xs' ys \<le> Suc (lev (x' # xs') ys)"
      using less [of xs' ys x' y] Cons by simp
    with Cons show ?thesis by (auto simp: min_def)
  qed
  have rem2: "lev xs ys \<le> Suc (lev xs (y # ys))" for y
  proof (cases xs)
    case Nil
    then show ?thesis by simp
  next
    case (Cons x' xs')
    have a: "lev (x' # xs') ys \<le> Suc (lev xs' ys)"
      using add1 [of x'] less [of xs' ys x' y] Cons
      by (cases ys) (auto simp: lev_Nil2 min_def)
    have b: "lev xs' ys \<le> Suc (lev xs' (y # ys))"
      using less [of xs' ys x' y] Cons by simp
    from a b Cons show ?thesis by (auto simp: min_def)
  qed
  have rem1: "lev xs ys \<le> Suc (lev (x # xs) ys)" for x
  proof (cases ys)
    case Nil
    then show ?thesis by (simp add: lev_Nil2)
  next
    case (Cons y' ys')
    have a: "lev xs (y' # ys') \<le> Suc (lev xs ys')"
      using add2 [of y'] less [of xs ys' x y'] Cons
      by (cases xs) (auto simp: min_def)
    have b: "lev xs ys' \<le> Suc (lev (x # xs) ys')"
      using less [of xs ys' x y'] Cons by simp
    from a b Cons show ?thesis by (auto simp: min_def)
  qed
  from add1 add2 rem1 rem2 show ?case by blast
qed

lemma lev_Cons_Cons_le: "lev (x # xs) (y # ys) \<le> Suc (lev xs ys)"
  by (simp add: min_def)

lemma lev_sub_step: "lev xs (y # w) \<le> Suc (lev xs (x' # w))"
proof (induction xs)
  case Nil
  show ?case by simp
next
  case (Cons x xs)
  have up: "lev (x # xs) (y # w) \<le> Suc (lev xs w)"
    by (rule lev_Cons_Cons_le)
  have a: "lev (x # xs) (y # w) \<le> Suc (lev xs (y # w))"
    using lev_grow [of xs "y # w" x y] by simp
  have b: "lev (x # xs) (y # w) \<le> Suc (lev (x # xs) w)"
    using lev_grow [of "x # xs" w x y] by simp
  show ?case
  proof (cases "x = x'")
    case True
    with up show ?thesis by simp
  next
    case False
    have "lev (x # xs) (x' # w) = Suc (lev xs w) \<or> lev (x # xs) (x' # w) = Suc (lev xs (x' # w))
          \<or> lev (x # xs) (x' # w) = Suc (lev (x # xs) w)"
      using False by (auto simp: min_def)
    with up a b Cons show ?thesis by linarith
  qed
qed

lemma lev_edit1: "edit1 ys zs \<Longrightarrow> lev xs zs \<le> Suc (lev xs ys)"
proof (induction arbitrary: xs rule: edit1.induct)
  case (ins ys y)
  show ?case using lev_grow [of xs ys y y] by simp
next
  case (del y zs)
  show ?case using lev_grow [of xs zs y y] by simp
next
  case (sub x y w)
  show ?case by (rule lev_sub_step)
next
  case (inside ys zs y)
  show ?case
  proof (induction xs)
    case Nil
    show ?case using inside.IH [of "[]"] by simp
  next
    case (Cons x xs)
    show ?case
    proof (cases "x = y")
      case True
      then show ?thesis using inside.IH [of xs] by simp
    next
      case False
      have 1: "lev xs zs \<le> Suc (lev xs ys)" by (rule inside.IH)
      have 2: "lev (x # xs) zs \<le> Suc (lev (x # xs) ys)" by (rule inside.IH)
      from False 1 2 Cons show ?thesis by (simp add: min_def)
    qed
  qed
qed

lemma lev_same: "lev xs xs = 0"
  by (induction xs) auto

lemma edits_lev: "edits n xs ys \<Longrightarrow> lev xs ys \<le> n"
proof (induction rule: edits.induct)
  case (none a)
  show ?case by (simp add: lev_same)
next
  case (more n a b c)
  from lev_edit1 [OF more.hyps(2), of a] more.IH show ?case by simp
qed

lemma color_colour: "edits 1 ''color'' ''colour''"
proof -
  have "edit1 ''r'' ''ur''" by (rule edit1.ins)
  then have "edit1 ''color'' ''colour''"
    using edit1_prepend [of "''r''" "''ur''" "''colo''"] by simp
  with edits.none [of "''color''"] show ?thesis
    using edits.more by fastforce
qed

text \<open>
  Claim C7. \<^verbatim>\<open>levenshteinDistance(a, b)\<close> is the edit distance of \<open>a\<close> and \<open>b\<close>: that many
  insertions, deletions and substitutions of one character turn \<open>a\<close> into \<open>b\<close>, and no
  sequence of such edits from \<open>a\<close> to \<open>b\<close> is shorter. The distance of color and colour
  is 1, the distance of the empty string and \<open>s\<close> is the length of \<open>s\<close>, and the fuzzy test
  of the search holds exactly for the pairs of tokens at most two edits apart.
\<close>

theorem levenshteinDistance_is_edit_distance:
  "edits (levenshteinDistance a b) a b
   \<and> (\<forall>n. edits n a b \<longrightarrow> levenshteinDistance a b \<le> n)
   \<and> levenshteinDistance ''color'' ''colour'' = 1
   \<and> levenshteinDistance [] s = length s
   \<and> (fuzzy_match t u \<longleftrightarrow> (\<exists>n \<le> 2. edits n t u))"
proof (intro conjI allI impI)
  show "edits (levenshteinDistance a b) a b"
    using edits_rev [OF lev_edits [of "rev a" "rev b"]] by (simp add: levenshteinDistance_lev)
  show "levenshteinDistance a b \<le> n" if "edits n a b" for n
    using edits_lev [OF edits_rev [OF that]] by (simp add: levenshteinDistance_lev)
  show "levenshteinDistance ''color'' ''colour'' = 1"
    by (simp add: levenshteinDistance_lev)
  show "levenshteinDistance [] s = length s"
    by (simp add: levenshteinDistance_def)
  show "fuzzy_match t u \<longleftrightarrow> (\<exists>n \<le> 2. edits n t u)"
  proof
    assume "fuzzy_match t u"
    then have "lev (rev t) (rev u) \<le> 2"
      by (simp add: fuzzy_match_def levenshteinDistance_lev)
    moreover have "edits (lev (rev t) (rev u)) t u"
      using edits_rev [OF lev_edits [of "rev t" "rev u"]] by simp
    ultimately show "\<exists>n \<le> 2. edits n t u" by blast
  next
    assume "\<exists>n \<le> 2. edits n t u"
    then obtain n where "n \<le> 2" "edits n t u" by blast
    with edits_lev [OF edits_rev, of n t u] show "fuzzy_match t u"
      by (simp add: fuzzy_match_def levenshteinDistance_lev)
  qed
qed

theorem levenshteinDistance_is_edit_distance_witness:
  "edits 1 ''color'' ''colour'' \<and> levenshteinDistance ''color'' ''colour'' \<le> 1
   \<and> edits (levenshteinDistance ''color'' ''colour'') ''color'' ''colour''"
  using levenshteinDistance_is_edit_distance [of "''color''" "''colour''"] color_colour
  by blast

section \<open>The engine on the sample data\<close>

lemma search_engine_after: "snd (search eng pid q l) = snd (collect_chunks eng pid)"
  by (simp add: search_def Let_def split: prod.splits)

lemma new_engine_NoFile: "new_engine NoFile = Typed (initial_engine NoFile)"
  by (simp add: new_engine_def loadIndex_def read_snapshot_def initial_engine_def)

lemma sample_index: "index sample_engine = [(''A'', 0), (''B'', 1)]"
  by (simp add: sample_engine_def indexProject_def saveIndex_def write_snapshot_def set_entry_def
        initial_engine_def)

lemma sample_arrays: "arrays sample_engine = ((\<lambda>r. [])(0 := [sample_a]))(1 := [sample_b])"
  by (simp add: sample_engine_def indexProject_def saveIndex_def write_snapshot_def set_entry_def
        initial_engine_def)

text \<open>
  Claim C1 does not hold of the program. The claim: \<^verbatim>\<open>search\<close> leaves every collection of
  the index with the chunk sequence it had. In the sample engine the collection A holds one
  chunk; after a search that names A it holds the chunk of B as well, since the candidates
  were pushed onto the array of A itself.
\<close>

theorem search_extends_requested_collection:
  "collection sample_engine ''A'' = Some [sample_a]
   \<and> collection (snd (search sample_engine (Some ''A'') ''foo'' 5)) ''A'' = Some [sample_a, sample_b]"
  by (simp add: search_engine_after collect_chunks_def requested_def collection_def
        sample_index sample_arrays)

lemma search_results:
  assumes "collect_chunks eng pid = (allChunks, eng')" and "allChunks \<noteq> []" and "tokenize q \<noteq> []"
  shows "fst (search eng pid q l) =
           slice_to (sort_by_score (filter (\<lambda>item. score item > 0)
             (map (score_chunk pid (tokenize q) (idf_table allChunks (tokenize q)) (avgDocLength allChunks))
                  allChunks))) l"
  using assms by (simp add: search_def Let_def)

lemma tokenize_foo: "tokenize ''foo'' = [''foo'']"
  by code_simp

lemma term_match_sample_a: "term_match sample_a ''foo'' = (0, None)"
  by code_simp

lemma term_match_sample_b: "term_match sample_b ''foo'' = (0, None)"
  by code_simp

lemma title_sample_a: "titleLower sample_a = []"
  by (simp add: titleLower_def sample_a_def)

lemma title_sample_b: "titleLower sample_b = ''foo''"
  by (simp add: titleLower_def sample_b_def toLowerCase_def toLowerCase_char_def
        upper_chars_def lower_chars_def)

lemma score_sample_a:
  "score_chunk pid [''foo''] idf avg sample_a = \<lparr> chunk = sample_a, score = 0, matchDetails = [] \<rparr>"
  by (cases pid)
     (simp_all add: score_chunk_def score_term_def term_match_sample_a title_boost_def
        title_sample_a project_boost_def)

lemma score_sample_b:
  "score_chunk None [''foo''] idf avg sample_b = \<lparr> chunk = sample_b, score = 2, matchDetails = [] \<rparr>"
  by (simp add: score_chunk_def score_term_def term_match_sample_b title_boost_def
        title_sample_b project_boost_def)

lemma projectId_sample_b: "projectId sample_b = ''B''"
  by (simp add: sample_b_def)


lemma leaked_index: "index leaked_engine = [(''A'', 0), (''B'', 1)]"
  by (simp add: leaked_engine_def search_engine_after collect_chunks_def requested_def sample_index)

lemma sample_next_ref: "next_ref sample_engine = 2"
  by (simp add: sample_engine_def indexProject_def saveIndex_def write_snapshot_def set_entry_def
        initial_engine_def)

lemma leaked_next_ref: "next_ref leaked_engine = 2"
  by (simp add: leaked_engine_def search_engine_after collect_chunks_def requested_def
        sample_index sample_next_ref)

lemma leaked_arrays:
  "arrays leaked_engine = ((\<lambda>r. [])(0 := [sample_a, sample_b]))(1 := [sample_b])"
  by (auto simp: leaked_engine_def search_engine_after collect_chunks_def requested_def
        sample_index sample_arrays fun_eq_iff)

text \<open>
  Claim C8 does not hold of the program. The claim: after \<^verbatim>\<open>clearIndex(c)\<close> no chunk of
  \<open>c\<close> is found by a search over all collections, and after \<^verbatim>\<open>indexProject(c, newChunks)\<close>
  no chunk of the old set that is absent from the new one is found. Once a search that
  names A has copied the chunk of B into the array of A, clearing B, or indexing B anew with
  no chunks, does remove it from the collection B, and the next search over all collections
  still returns it.
\<close>

theorem cleared_chunks_still_found:
  "collection (clearIndex leaked_engine ''B'' True) ''B'' = None
   \<and> map chunk (fst (search (clearIndex leaked_engine ''B'' True) None ''foo'' 5)) = [sample_b]
   \<and> collection (indexProject leaked_engine ''B'' [] True) ''B'' = Some []
   \<and> map chunk (fst (search (indexProject leaked_engine ''B'' [] True) None ''foo'' 5)) = [sample_b]"
proof -
  let ?c = "clearIndex leaked_engine ''B'' True"
  let ?r = "indexProject leaked_engine ''B'' [] True"
  have c: "collect_chunks ?c None = ([sample_a, sample_b], ?c)"
    by (simp add: collect_chunks_def requested_def clearIndex_def saveIndex_def write_snapshot_def
          leaked_index leaked_arrays)
  have r: "collect_chunks ?r None = ([sample_a, sample_b], ?r)"
    by (simp add: collect_chunks_def requested_def indexProject_def saveIndex_def write_snapshot_def
          set_entry_def leaked_index leaked_arrays leaked_next_ref)
  have res: "map chunk (slice_to (sort_by_score (filter (\<lambda>item. score item > 0)
               (map (score_chunk None [''foo''] idf avg) [sample_a, sample_b]))) 5) = [sample_b]"
    for idf avg
    by (simp add: score_sample_a score_sample_b sort_by_score_def slice_to_def)
  have "collection ?c ''B'' = None"
    by (simp add: collection_def clearIndex_def saveIndex_def write_snapshot_def leaked_index)
  moreover have "collection ?r ''B'' = Some []"
    by (simp add: collection_def indexProject_def saveIndex_def write_snapshot_def set_entry_def
          leaked_index leaked_arrays leaked_next_ref)
  moreover have "map chunk (fst (search ?c None ''foo'' 5)) = [sample_b]"
    using search_results [OF c, of "''foo''" 5] res by (simp add: tokenize_foo)
  moreover have "map chunk (fst (search ?r None ''foo'' 5)) = [sample_b]"
    using search_results [OF r, of "''foo''" 5] res by (simp add: tokenize_foo)
  ultimately show ?thesis by simp
qed


section \<open>Properties of the search\<close>

subsection \<open>Match details\<close>

lemma fuzzy_loop:
  "fold (\<lambda>token (termFreq, matchType0).
            if fuzzy_match t token then (termFreq + 1, Some Fuzzy) else (termFreq, matchType0))
     tokens (n, m) =
   (n + length (filter (fuzzy_match t) tokens),
    if filter (fuzzy_match t) tokens = [] then m else Some Fuzzy)"
  by (induction tokens arbitrary: n m) auto

lemma term_match_type:
  "0 < fst (term_match c t) \<Longrightarrow>
   snd (term_match c t) = Some Exact \<or> snd (term_match c t) = Some Fuzzy"
  by (auto simp: term_match_def fuzzy_loop split: option.splits if_splits)

lemma score_term_step:
  "score_term idf avg c t (s, ds) =
     (s + term_contribution idf avg c t,
      ds @ (if 0 < fst (term_match c t) then [detail_of c t] else []))"
  by (cases "term_match c t")
     (simp add: score_term_def term_contribution_def detail_of_def Let_def)

lemma score_term_loop:
  "fold (score_term idf avg c) ts (s, ds) =
     (s + sum_list (map (term_contribution idf avg c) ts),
      ds @ map (detail_of c) (filter (\<lambda>t. 0 < fst (term_match c t)) ts))"
  by (induction ts arbitrary: s ds) (simp_all add: score_term_step add.assoc)

lemma title_loop:
  "fold (title_boost c) ts s =
     s + 2 * real (length (filter (\<lambda>t. js_includes (titleLower c) t) ts))"
  by (induction ts arbitrary: s) (simp_all add: title_boost_def)

lemma score_chunk_fields:
  "chunk (score_chunk pid ts idf avg c) = c
   \<and> matchDetails (score_chunk pid ts idf avg c) =
       map (detail_of c) (filter (\<lambda>t. 0 < fst (term_match c t)) ts)
   \<and> score (score_chunk pid ts idf avg c) =
       project_boost pid c
         (sum_list (map (term_contribution idf avg c) ts)
          + 2 * real (length (filter (\<lambda>t. js_includes (titleLower c) t) ts)))"
  by (simp add: score_chunk_def score_term_loop title_loop)

lemma set_slice_to: "set (slice_to xs l) \<subseteq> set xs"
  by (auto simp: slice_to_def dest: in_set_takeD)

lemma search_result_scored:
  assumes "r \<in> set (fst (search eng pid q l))"
  shows "\<exists>c \<in> set (fst (collect_chunks eng pid)).
           r = score_chunk pid (tokenize q)
                 (idf_table (fst (collect_chunks eng pid)) (tokenize q))
                 (avgDocLength (fst (collect_chunks eng pid))) c
           \<and> 0 < score r"
proof -
  obtain cs eng' where cc: "collect_chunks eng pid = (cs, eng')"
    by (cases "collect_chunks eng pid")
  show ?thesis
  proof (cases "cs = []")
    case True
    with assms cc show ?thesis by (simp add: search_def)
  next
    case ne: False
    show ?thesis
    proof (cases "tokenize q = []")
      case True
      with assms cc ne show ?thesis by (simp add: search_def Let_def)
    next
      case False
      with assms cc ne have "r \<in> set (slice_to (sort_by_score (filter (\<lambda>item. score item > 0)
             (map (score_chunk pid (tokenize q) (idf_table cs (tokenize q)) (avgDocLength cs)) cs))) l)"
        by (simp add: search_def Let_def)
      then have "r \<in> set (filter (\<lambda>item. score item > 0)
             (map (score_chunk pid (tokenize q) (idf_table cs (tokenize q)) (avgDocLength cs)) cs))"
        using set_slice_to by (fastforce simp: sort_by_score_def)
      with cc show ?thesis by auto
    qed
  qed
qed

text \<open>
  Claim C10. In every result of \<^verbatim>\<open>search\<close>, every match detail has the match type exact or
  fuzzy, never semantic (nor \<^verbatim>\<open>null\<close>), its term is a term of the query, and the term
  frequency of that term in the chunk of the result is positive.
\<close>

theorem matchDetails_exact_or_fuzzy:
  "\<forall>r \<in> set (fst (search eng pid q l)). \<forall>d \<in> set (matchDetails r).
     (matchType d = Some Exact \<or> matchType d = Some Fuzzy)
     \<and> matchType d \<noteq> Some Semantic
     \<and> md_term d \<in> set (tokenize q)
     \<and> 0 < fst (term_match (chunk r) (md_term d))"
proof (intro ballI)
  fix r d
  assume r: "r \<in> set (fst (search eng pid q l))" and d: "d \<in> set (matchDetails r)"
  from search_result_scored [OF r] obtain c idf avg
    where "r = score_chunk pid (tokenize q) idf avg c" by blast
  with score_chunk_fields [of pid "tokenize q" idf avg c]
  have c: "chunk r = c"
    and ds: "matchDetails r = map (detail_of c) (filter (\<lambda>t. 0 < fst (term_match c t)) (tokenize q))"
    by simp_all
  from d ds obtain t where t: "t \<in> set (tokenize q)" "0 < fst (term_match c t)" "d = detail_of c t"
    by auto
  from term_match_type [OF t(2)] t c
  show "(matchType d = Some Exact \<or> matchType d = Some Fuzzy)
     \<and> matchType d \<noteq> Some Semantic
     \<and> md_term d \<in> set (tokenize q)
     \<and> 0 < fst (term_match (chunk r) (md_term d))"
    by (auto simp: detail_of_def)
qed

subsection \<open>Signs of the statistics\<close>

lemma docCount_fold_le:
  "fold (\<lambda>chunk n. if P chunk then n + 1 else n) cs (k::nat) \<le> k + length cs"
proof (induction cs arbitrary: k)
  case Nil
  show ?case by simp
next
  case (Cons c cs)
  show ?case using Cons [of "k + 1"] Cons [of k] by auto
qed

lemma docCount_le: "docCount cs t \<le> length cs"
  using docCount_fold_le [of _ cs 0] by (simp add: docCount_def)

lemma idf_value_pos: "0 < idf_value cs t"
proof -
  have "real (docCount cs t) \<le> real (length cs)"
    using docCount_le [of cs t] by simp
  then have "0 < (real (length cs) - real (docCount cs t) + 0.5) / (real (docCount cs t) + 0.5)"
    by (intro divide_pos_pos) simp_all
  then show ?thesis by (simp add: idf_value_def)
qed

lemma idf_table_fold:
  "fold (\<lambda>term0 idf. idf(term0 \<mapsto> idf_value cs term0)) ts m t =
     (if t \<in> set ts then Some (idf_value cs t) else m t)"
  by (induction ts arbitrary: m) auto

lemma idf_table_at: "t \<in> set ts \<Longrightarrow> idf_at (idf_table cs ts) t = idf_value cs t"
  by (simp add: idf_table_def idf_table_fold idf_at_def)

lemma avgDocLength_nonneg: "0 \<le> avgDocLength cs"
  by (simp add: avgDocLength_def)

lemma term_contribution_pos:
  assumes "0 < fst (term_match c t)" and "0 < idf_at idf t" and "0 \<le> avg"
  shows "0 < term_contribution idf avg c t"
proof -
  have "0 < 1 - bm25_b + bm25_b * (real (length (content c)) / avg)"
    using assms(3) by (simp add: bm25_b_def add_pos_nonneg)
  then have "0 < real (fst (term_match c t))
               + k1 * (1 - bm25_b + bm25_b * (real (length (content c)) / avg))"
    using assms(1) by (simp add: k1_def add_pos_pos)
  moreover have "0 < idf_at idf t * real (fst (term_match c t)) * (k1 + 1)"
    using assms(1,2) by (simp add: k1_def)
  ultimately show ?thesis
    using assms(1) by (simp add: term_contribution_def)
qed

lemma tokenize_hello: "tokenize ''hello'' = [''hello'']"
  by code_simp

lemma term_match_hello_a: "term_match sample_a ''hello'' = (1, Some Exact)"
  by code_simp

lemma term_match_hello_b: "term_match sample_b ''hello'' = (0, None)"
  by code_simp

lemma sample_collect: "collect_chunks sample_engine None = ([sample_a, sample_b], sample_engine)"
  by (simp add: collect_chunks_def requested_def sample_index sample_arrays)

theorem matchDetails_exact_or_fuzzy_witness:
  "\<exists>r \<in> set (fst (search sample_engine None ''hello'' 5)).
      matchDetails r = [\<lparr> md_term = ''hello'', matchType = Some Exact \<rparr>]
    \<and> (\<forall>d \<in> set (matchDetails r). matchType d = Some Exact \<or> matchType d = Some Fuzzy)"
proof -
  let ?cs = "[sample_a, sample_b]"
  let ?idf = "idf_table ?cs [''hello'']"
  let ?avg = "avgDocLength ?cs"
  let ?ra = "score_chunk None [''hello''] ?idf ?avg sample_a"
  let ?rb = "score_chunk None [''hello''] ?idf ?avg sample_b"
  have "0 < term_contribution ?idf ?avg sample_a ''hello''"
    by (rule term_contribution_pos)
       (simp_all add: term_match_hello_a idf_table_at idf_value_pos avgDocLength_nonneg)
  then have a: "0 < score ?ra"
    by (simp add: score_chunk_fields project_boost_def title_sample_a)
  have b: "score ?rb = 0"
    by (simp add: score_chunk_fields project_boost_def title_sample_b term_contribution_def
          term_match_hello_b)
  have "fst (search sample_engine None ''hello'' 5) = [?ra]"
    using search_results [OF sample_collect, of "''hello''" 5] a b
    by (simp add: tokenize_hello sort_by_score_def slice_to_def)
  moreover have "matchDetails ?ra = [\<lparr> md_term = ''hello'', matchType = Some Exact \<rparr>]"
    by (simp add: score_chunk_fields term_match_hello_a detail_of_def)
  ultimately show ?thesis
    using matchDetails_exact_or_fuzzy [of sample_engine None "''hello''" 5] by simp
qed

subsection \<open>Case\<close>

lemma toLowerCase_char_idem: "toLowerCase_char (toLowerCase_char c) = toLowerCase_char c"
  by (simp add: toLowerCase_char_def upper_chars_def lower_chars_def)

lemma toLowerCase_idem: "toLowerCase (toLowerCase s) = toLowerCase s"
  by (simp add: toLowerCase_def toLowerCase_char_idem)

lemma toLowerCase_take: "toLowerCase (take n s) = take n (toLowerCase s)"
  by (simp add: toLowerCase_def take_map)

lemma toLowerCase_drop: "toLowerCase (drop n s) = drop n (toLowerCase s)"
  by (simp add: toLowerCase_def drop_map)

lemma length_toLowerCase: "length (toLowerCase s) = length s"
  by (simp add: toLowerCase_def)

lemma prefix_ci_iff:
  "prefix_ci pat s \<longleftrightarrow> length pat \<le> length s \<and> toLowerCase (take (length pat) s) = toLowerCase pat"
  by (induction pat s rule: prefix_ci.induct) (auto simp: toLowerCase_def ci_eq_def)

lemma prefix_ci_lower: "prefix_ci pat (toLowerCase s) = prefix_ci pat s"
  by (simp add: prefix_ci_iff length_toLowerCase toLowerCase_take [symmetric] toLowerCase_idem)

lemma prefix_ci_drop: "i \<le> length s \<Longrightarrow> prefix_ci pat (drop i s) = occurs_at pat s i"
  by (auto simp: prefix_ci_iff occurs_at_def)

subsection \<open>Exact matches and occurrences\<close>

lemma match_all_short: "length s < length pat \<Longrightarrow> match_all pat s = []"
proof (induction s)
  case Nil
  then show ?case by (subst match_all.simps) (simp add: prefix_ci_iff)
next
  case (Cons c cs)
  then have "match_all pat cs = []" by simp
  with Cons.prems show ?case by (subst match_all.simps) (simp add: prefix_ci_iff)
qed

lemma length_match_all_lower: "length (match_all pat (toLowerCase s)) = length (match_all pat s)"
proof (induction pat s rule: match_all.induct)
  case (1 pat s)
  show ?case
  proof (cases "prefix_ci pat s")
    case True
    show ?thesis
    proof (cases "s = []")
      case True
      then show ?thesis by (simp add: toLowerCase_def)
    next
      case False
      have "length (match_all pat (toLowerCase (drop (max 1 (length pat)) s))) =
            length (match_all pat (drop (max 1 (length pat)) s))"
        using "1.IH"(1) [OF True False] .
      moreover have "toLowerCase s \<noteq> []"
        using False by (simp add: toLowerCase_def)
      ultimately show ?thesis
        using True False
        by (subst match_all.simps, subst (2) match_all.simps)
           (simp add: prefix_ci_lower toLowerCase_drop)
    qed
  next
    case np: False
    show ?thesis
    proof (cases "s = []")
      case True
      then show ?thesis by (simp add: toLowerCase_def)
    next
      case False
      have "length (match_all pat (toLowerCase (tl s))) = length (match_all pat (tl s))"
        using "1.IH"(2) [OF np False] .
      moreover have "toLowerCase s \<noteq> []" "tl (toLowerCase s) = toLowerCase (tl s)"
        using False by (simp_all add: toLowerCase_def map_tl)
      ultimately show ?thesis
        using np False
        by (subst match_all.simps, subst (2) match_all.simps) (simp add: prefix_ci_lower)
    qed
  qed
qed

lemma length_match_all_count:
  "i \<le> length s \<Longrightarrow> length (match_all pat (drop i s)) = count_occurrences pat s i"
proof (induction pat s i rule: count_occurrences.induct)
  case (1 t s i)
  show ?case
  proof (cases "length s < i + length t")
    case True
    then have "length (drop i s) < length t"
      using "1.prems" by simp
    then have "match_all t (drop i s) = []"
      by (rule match_all_short)
    with True show ?thesis by (subst count_occurrences.simps) simp
  next
    case fits: False
    show ?thesis
    proof (cases "occurs_at t s i")
      case True
      then have p: "prefix_ci t (drop i s)"
        using "1.prems" by (simp add: prefix_ci_drop)
      show ?thesis
      proof (cases "drop i s = []")
        case True
        with "1.prems" have "i = length s" by simp
        with fits have "length t = 0" by simp
        then have "count_occurrences t s (i + max 1 (length t)) = 0"
          using \<open>i = length s\<close> by (subst count_occurrences.simps) simp
        with True p fits \<open>occurs_at t s i\<close> show ?thesis
          by (subst match_all.simps, subst count_occurrences.simps) simp
      next
        case False
        then have "i < length s" by simp
        with fits have next_ok: "i + max 1 (length t) \<le> length s" by (simp add: max_def)
        have "length (match_all t (drop (i + max 1 (length t)) s)) =
              count_occurrences t s (i + max 1 (length t))"
          using "1.IH"(1) [OF fits True next_ok] .
        with False p fits True show ?thesis
          by (subst match_all.simps, subst count_occurrences.simps) (simp add: add.commute)
      qed
    next
      case no: False
      then have p: "\<not> prefix_ci t (drop i s)"
        using "1.prems" by (simp add: prefix_ci_drop)
      have ne: "drop i s \<noteq> []"
      proof
        assume "drop i s = []"
        with "1.prems" have "i = length s" by simp
        with fits have "length t = 0" by simp
        with \<open>i = length s\<close> have "occurs_at t s i" by (simp add: occurs_at_def)
        with no show False by simp
      qed
      then have "Suc i \<le> length s" by simp
      then have "length (match_all t (drop (i + 1) s)) = count_occurrences t s (i + 1)"
        using "1.IH"(2) [OF fits no] by simp
      with ne p fits no show ?thesis
        by (subst match_all.simps, subst count_occurrences.simps) (simp add: drop_Suc tl_drop)
    qed
  qed
qed

lemma js_match_count:
  "(case js_match (toLowerCase s) t of Some matches \<Rightarrow> length matches | None \<Rightarrow> 0) =
     count_occurrences t s 0
   \<and> (js_match (toLowerCase s) t = None \<longleftrightarrow> count_occurrences t s 0 = 0)"
  using length_match_all_count [of 0 s t] length_match_all_lower [of t s]
  by (cases "match_all t (toLowerCase s)") (auto simp: js_match_def)

lemma term_match_ref: "fst (term_match c t) = ref_termFreq c t"
proof (cases "js_match (toLowerCase (content c)) t")
  case None
  then have "count_occurrences t (content c) 0 = 0"
    using js_match_count [of "content c" t] by simp
  with None show ?thesis
    by (simp add: term_match_def ref_termFreq_def fuzzy_loop fuzzy_match_def [symmetric])
next
  case (Some ms)
  then have "length ms = count_occurrences t (content c) 0" "count_occurrences t (content c) 0 \<noteq> 0"
    using js_match_count [of "content c" t] by auto
  with Some show ?thesis
    by (simp add: term_match_def ref_termFreq_def)
qed

subsection \<open>The title boost and the project boost\<close>

lemma js_includes_iff: "js_includes s t \<longleftrightarrow> (\<exists>i \<le> length s. take (length t) (drop i s) = t)"
proof (induction s)
  case Nil
  show ?case by auto
next
  case (Cons x xs)
  have "(\<exists>i \<le> length (x # xs). take (length t) (drop i (x # xs)) = t) \<longleftrightarrow>
        take (length t) (x # xs) = t \<or> (\<exists>j \<le> length xs. take (length t) (drop j xs) = t)"
    (is "?L \<longleftrightarrow> ?R")
  proof
    assume ?L
    then obtain i where i: "i \<le> length (x # xs)" "take (length t) (drop i (x # xs)) = t" by blast
    show ?R
    proof (cases i)
      case 0
      with i show ?thesis by simp
    next
      case (Suc j)
      with i have "j \<le> length xs \<and> take (length t) (drop j xs) = t" by simp
      then show ?thesis by blast
    qed
  next
    assume ?R
    then show ?L
    proof
      assume "take (length t) (x # xs) = t"
      then have "0 \<le> length (x # xs) \<and> take (length t) (drop 0 (x # xs)) = t" by simp
      then show ?L by blast
    next
      assume "\<exists>j \<le> length xs. take (length t) (drop j xs) = t"
      then obtain j where "j \<le> length xs" "take (length t) (drop j xs) = t" by blast
      then have "Suc j \<le> length (x # xs) \<and> take (length t) (drop (Suc j) (x # xs)) = t" by simp
      then show ?L by blast
    qed
  qed
  with Cons show ?case by simp
qed

lemma ci_substring_iff: "ci_substring t s \<longleftrightarrow> (\<exists>i \<le> length s. occurs_at t s i)"
  by (auto simp: ci_substring_def list_ex_iff less_Suc_eq_le simp del: upt_Suc)

lemma includes_lower_ci:
  assumes "toLowerCase t = t"
  shows "js_includes (toLowerCase s) t = ci_substring t s"
proof -
  have "take (length t) (drop i (toLowerCase s)) = t \<longleftrightarrow> occurs_at t s i" if i: "i \<le> length s" for i
  proof
    assume eq: "take (length t) (drop i (toLowerCase s)) = t"
    then have "length (take (length t) (drop i (toLowerCase s))) = length t" by simp
    then have "i + length t \<le> length s"
      using i by (simp add: length_toLowerCase min_def split: if_splits)
    with eq assms show "occurs_at t s i"
      by (simp add: occurs_at_def toLowerCase_take toLowerCase_drop)
  next
    assume "occurs_at t s i"
    with assms show "take (length t) (drop i (toLowerCase s)) = t"
      by (simp add: occurs_at_def toLowerCase_take toLowerCase_drop)
  qed
  then show ?thesis
    by (auto simp: js_includes_iff ci_substring_iff length_toLowerCase)
qed

lemma tokens_lower: "t \<in> set (tokenize q) \<Longrightarrow> toLowerCase t = t"
  by (auto simp: tokenize_def tokenize_raw_eq toLowerCase_idem)

lemma titleLower_ref: "titleLower c = toLowerCase (ref_title c)"
  by (simp add: titleLower_def ref_title_def toLowerCase_def split: option.splits)

lemma project_boost_ref:
  "projectId c \<noteq> [] \<Longrightarrow>
   project_boost pid c s = s * (if pid = Some (projectId c) then 1.5 else 1)"
  by (auto simp: project_boost_def split: option.splits)

lemma project_boost_empty: "project_boost (Some []) c s = s"
  by (simp add: project_boost_def)

lemma term_contribution_ref: "term_contribution idf avg c = ref_bm25 idf avg c"
  by (rule ext) (simp add: term_contribution_def ref_bm25_def term_match_ref k1_def bm25_b_def)

lemma score_chunk_ref:
  assumes "projectId c \<noteq> []"
  shows "score (score_chunk pid (tokenize q) idf avg c) = ref_score pid (tokenize q) idf avg c"
proof -
  have f: "filter (js_includes (titleLower c)) (tokenize q) =
           filter (\<lambda>t. ci_substring t (ref_title c)) (tokenize q)"
    by (rule filter_cong) (simp_all add: titleLower_ref includes_lower_ci tokens_lower)
  show ?thesis
    by (simp add: score_chunk_fields term_contribution_ref f project_boost_ref [OF assms]
          ref_score_def)
qed

text \<open>
  Claim C2. For every chunk and every tokenized query, the score that \<^verbatim>\<open>search\<close> accumulates
  is the reference score: per query term the term frequency is the number of occurrences
  of the term in the content, without regard to case, when there is one, and otherwise the
  number of tokens of the content at Levenshtein distance at most 2; a term of positive
  frequency adds its BM25 contribution with \<open>k1 = 1.2\<close> and \<open>b = 0.75\<close>; each query term that
  occurs in the title adds 2; and the sum is multiplied by 1.5 when a collection was
  specified and the chunk belongs to it. The chunk is one of the data model, whose
  collection id is never empty. Every such result of a search carries this score, for the
  statistics of the candidates of that search.
\<close>

theorem score_matches_reference:
  "(projectId c \<noteq> [] \<longrightarrow>
      score (score_chunk pid (tokenize q) idf avg c) = ref_score pid (tokenize q) idf avg c)
   \<and> (\<forall>r \<in> set (fst (search eng pid q l)).
        projectId (chunk r) \<noteq> [] \<longrightarrow>
        score r = ref_score pid (tokenize q)
                    (idf_table (fst (collect_chunks eng pid)) (tokenize q))
                    (avgDocLength (fst (collect_chunks eng pid))) (chunk r))"
proof (intro conjI impI ballI)
  assume "projectId c \<noteq> []"
  then show "score (score_chunk pid (tokenize q) idf avg c) = ref_score pid (tokenize q) idf avg c"
    by (rule score_chunk_ref)
next
  fix r assume "r \<in> set (fst (search eng pid q l))" and ne: "projectId (chunk r) \<noteq> []"
  from search_result_scored [OF this(1)] obtain c' where
    r: "r = score_chunk pid (tokenize q) (idf_table (fst (collect_chunks eng pid)) (tokenize q))
           (avgDocLength (fst (collect_chunks eng pid))) c'"
    by blast
  have c': "chunk r = c'"
    unfolding r by (simp add: score_chunk_fields)
  with ne have "projectId c' \<noteq> []" by simp
  then have "score r = ref_score pid (tokenize q)
                      (idf_table (fst (collect_chunks eng pid)) (tokenize q))
                      (avgDocLength (fst (collect_chunks eng pid))) c'"
    unfolding r by (rule score_chunk_ref)
  with c' show "score r = ref_score pid (tokenize q)
                      (idf_table (fst (collect_chunks eng pid)) (tokenize q))
                      (avgDocLength (fst (collect_chunks eng pid))) (chunk r)"
    by simp
qed

theorem score_matches_reference_witness:
  "projectId sample_b \<noteq> []
   \<and> score (score_chunk (Some ''B'') (tokenize ''foo'')
              (idf_table [sample_a, sample_b] (tokenize ''foo''))
              (avgDocLength [sample_a, sample_b]) sample_b) = 3
   \<and> ref_score (Some ''B'') (tokenize ''foo'')
              (idf_table [sample_a, sample_b] (tokenize ''foo''))
              (avgDocLength [sample_a, sample_b]) sample_b = 3"
proof -
  have h: "projectId sample_b \<noteq> []" by (simp add: projectId_sample_b)
  have "score (score_chunk (Some ''B'') (tokenize ''foo'')
              (idf_table [sample_a, sample_b] (tokenize ''foo''))
              (avgDocLength [sample_a, sample_b]) sample_b) = 3"
    by (simp add: tokenize_foo score_chunk_fields term_contribution_def term_match_sample_b
          title_sample_b project_boost_def projectId_sample_b)
  with h score_matches_reference [of sample_b "Some ''B''" "''foo''"
      "idf_table [sample_a, sample_b] (tokenize ''foo'')" "avgDocLength [sample_a, sample_b]"]
  show ?thesis by simp
qed

subsection \<open>Loading and saving\<close>















section \<open>Where the embedding and the program could part\<close>

text \<open>
  The regular expression of a term is modelled as the term itself: a term of the tokenizer
  has more than two characters, all lower-case letters or digits, so it has no
  metacharacter. A division in HOL by zero is zero, in the program it is not a number: the
  average length is positive wherever a term frequency is, so the quotient by it in a BM25
  contribution is a proper one. The ranking is the stable sort by descending score. The
  functions on engines are those of an index of arrays of chunks: an index loaded from a
  file of another shape is the \<open>Untyped\<close> engine, on which they are not defined, and the
  bound of a host for the arguments of \<^verbatim>\<open>push(...chunks)\<close> is the hypothesis
  \<open>within_spread_limit\<close> where a property depends on it.
\<close>

lemma sub_fragments_nonempty: "sub_fragments s \<noteq> []"
  by (induction s rule: sub_fragments.induct) (auto simp: Let_def)

lemma concat_sub_fragments: "concat (sub_fragments s) = s"
proof (induction s rule: sub_fragments.induct)
  case (3 a b cs)
  obtain p ps where r: "sub_fragments (b # cs) = p # ps"
    using sub_fragments_nonempty [of "b # cs"] by (cases "sub_fragments (b # cs)") auto
  with 3 show ?case by (auto simp: Let_def)
qed simp_all

lemma lower_of_alnum: "is_alnum c \<Longrightarrow> is_lower (toLowerCase_char c) \<or> toLowerCase_char c \<in> set digit_chars"
  by (auto simp: is_alnum_def is_lower_def toLowerCase_char_def upper_chars_def lower_chars_def
        digit_chars_def)

lemma tokens_alnum:
  assumes "t \<in> set (tokenize q)"
  shows "2 < length t \<and> (\<forall>c \<in> set t. is_lower c \<or> c \<in> set digit_chars)"
proof -
  from assms obtain f p where f: "f \<in> set (fragments q)"
    and p: "p \<in> set (split_on (CHR '' '') (camel_replace f))"
    and t: "t = toLowerCase p" and k: "keep_token t"
    by (auto simp: tokenize_def tokenize_raw_eq fragments_split_non_alnum)
  from f have alnum: "\<forall>c \<in> set f. is_alnum c" by (rule fragments_alnum)
  then have "CHR '' '' \<notin> set f" using space_not_alnum by blast
  then have "split_on (CHR '' '') (camel_replace f) = sub_fragments f"
    by (rule split_camel_replace)
  with p have "set p \<subseteq> set (concat (sub_fragments f))" by auto
  then have "set p \<subseteq> set f" by (simp add: concat_sub_fragments)
  with alnum have "\<forall>c \<in> set p. is_alnum c" by blast
  with t k show ?thesis
    by (auto simp: toLowerCase_def keep_token_def dest: lower_of_alnum)
qed

lemma match_all_empty_text: "pat \<noteq> [] \<Longrightarrow> match_all pat [] = []"
  by (subst match_all.simps) (cases pat, simp_all)

lemma tokenize_empty: "tokenize [] = []"
  by (simp add: tokenize_def)

lemma term_match_empty_content:
  "t \<noteq> [] \<Longrightarrow> content c = [] \<Longrightarrow> term_match c t = (0, None)"
  by (simp add: term_match_def js_match_def toLowerCase_def match_all_empty_text tokenize_empty)

lemma sum_lengths_fold:
  "fold (\<lambda>chunk sum. sum + length (content chunk)) cs k = k + sum_list (map (\<lambda>c. length (content c)) cs)"
  by (induction cs arbitrary: k) simp_all

lemma avgDocLength_pos:
  assumes "c \<in> set cs" and "t \<in> set (tokenize q)" and "0 < fst (term_match c t)"
  shows "0 < avgDocLength cs"
proof -
  from assms(2) have "t \<noteq> []" using tokens_alnum [of t q] by auto
  with assms(3) have "content c \<noteq> []"
    using term_match_empty_content [of t c] by auto
  then have "0 < length (content c)" by simp
  moreover have "length (content c) \<le> sum_list (map (\<lambda>c. length (content c)) cs)"
    using assms(1) member_le_sum_list [of "length (content c)" "map (\<lambda>c. length (content c)) cs"]
    by auto
  ultimately have "0 < sum_list (map (\<lambda>c. length (content c)) cs)" by linarith
  moreover from assms(1) have "0 < length cs" by (cases cs) auto
  ultimately show ?thesis
    by (simp add: avgDocLength_def sum_lengths_fold)
qed

text \<open>A search that names no collection of the index leaves the engine as it is.\<close>

lemma search_all_unchanged: "requested eng pid = None \<Longrightarrow> snd (search eng pid q l) = eng"
  by (simp add: search_engine_after collect_chunks_def)

lemma sort_by_score_stable:
  "filter (\<lambda>r. score r = s) (sort_by_score rs) = filter (\<lambda>r. score r = s) rs"
  using sort_key_stable [of "\<lambda>r. - score r" "- s" rs] by (simp add: sort_by_score_def)

lemma sort_by_score_descending: "sorted (map (\<lambda>r. - score r) (sort_by_score rs))"
  by (simp add: sort_by_score_def)

end
